theory Spec2Isabelle
  imports Complex_Main "HOL-Library.Multiset" "HOL-Library.AList"
begin

section \<open>The maze generator of server.js\<close>

text \<open>
  A maze is the array of rows that \<^verbatim>\<open>generateMaze\<close> builds: \<open>maze ! y ! x\<close> is the
  cell in column \<open>x\<close> of row \<open>y\<close>, with the source's numbers \<open>1\<close> for a wall and
  \<open>0\<close> for a path. Coordinates are integers, because the source adds the negative
  offsets of a direction to them before it tests the bounds.
\<close>

type_synonym grid = "int list list"
type_synonym cell = "int \<times> int"

text \<open>
  Reading \<^verbatim>\<open>maze[y][x]\<close>. Outside the rows the source reads \<^verbatim>\<open>undefined\<close>,
  which is \<open>None\<close> here and is never equal to a number.
\<close>

definition cellAt :: "grid \<Rightarrow> int \<Rightarrow> int \<Rightarrow> int option" where
  "cellAt maze x y =
     (if 0 \<le> y \<and> y < int (length maze) \<and> 0 \<le> x \<and> x < int (length (maze ! nat y))
      then Some (maze ! nat y ! nat x) else None)"

text \<open>
  Writing \<^verbatim>\<open>maze[y][x] = v\<close>. For the dimensions the generator is meant for (odd,
  3 or more; the server only asks for 21 by 21) every write falls inside the rows, as
  the invariant of the loop below records. A write outside them, where the source
  would grow a row or raise, is left out of the model and changes nothing.
\<close>

definition setCell :: "grid \<Rightarrow> int \<Rightarrow> int \<Rightarrow> int \<Rightarrow> grid" where
  "setCell maze x y v =
     (if 0 \<le> y \<and> y < int (length maze) \<and> 0 \<le> x \<and> x < int (length (maze ! nat y))
      then maze[nat y := (maze ! nat y)[nat x := v]] else maze)"

text \<open>The four directions, as (x, y) offsets, in the order of the source: up, down, left, right.\<close>

definition directions :: "cell list" where
  "directions = [(0, -2), (0, 2), (-2, 0), (2, 0)]"

text \<open>
  \<^verbatim>\<open>directions.sort(() => Math.random() - 0.5)\<close> reorders the array in place with
  a random comparator. The random source is a parameter of the model: a shuffle gives,
  for the number of the loop iteration and the array as it stands, the array after the
  sort. A sort only permutes, which is the hypothesis \<open>permuting\<close> below.
\<close>

type_synonym shuffle = "nat \<Rightarrow> cell list \<Rightarrow> cell list"

definition permuting :: "shuffle \<Rightarrow> bool" where
  "permuting sh = (\<forall>k ds. mset (sh k ds) = mset ds)"

text \<open>
  The \<^verbatim>\<open>for (const dir of directions)\<close> loop: the candidates \<open>(nx, ny, dx, dy)\<close> in
  the order of the shuffled directions, kept when the target is strictly inside the
  border and still a wall.
\<close>

definition validNeighbors :: "int \<Rightarrow> int \<Rightarrow> grid \<Rightarrow> cell \<Rightarrow> cell list \<Rightarrow> (int \<times> int \<times> int \<times> int) list" where
  "validNeighbors width height maze current dirs =
     map (\<lambda>dir. (fst current + fst dir, snd current + snd dir, fst dir div 2, snd dir div 2))
       (filter (\<lambda>dir. let nx = fst current + fst dir; ny = snd current + snd dir
                      in nx > 0 \<and> nx < width - 1 \<and> ny > 0 \<and> ny < height - 1
                         \<and> cellAt maze nx ny = Some 1) dirs)"

text \<open>The number of wall cells, which bounds the work left to the loop.\<close>

definition walls :: "grid \<Rightarrow> nat" where
  "walls maze = sum_list (map (\<lambda>row. length (filter (\<lambda>c. c = 1) row)) maze)"

lemma walls_update_row:
  assumes "i < length maze"
  shows "walls (maze[i := r]) + length (filter (\<lambda>c. c = 1) (maze ! i))
         = walls maze + length (filter (\<lambda>c. c = 1) r)"
  using assms
proof (induction maze arbitrary: i)
  case Nil
  then show ?case by simp
next
  case (Cons a maze)
  then show ?case by (cases i) (auto simp: walls_def)
qed

lemma count_update_wall:
  assumes "j < length r" "r ! j = (1::int)"
  shows "length (filter (\<lambda>c. c = 1) (r[j := 0])) < length (filter (\<lambda>c. c = 1) r)"
  using assms
proof (induction r arbitrary: j)
  case Nil
  then show ?case by simp
next
  case (Cons a r)
  show ?case
  proof (cases j)
    case 0
    with Cons.prems show ?thesis
      using length_filter_le[of "\<lambda>c. c = 1" r] by (simp add: less_Suc_eq_le)
  next
    case (Suc n)
    with Cons.prems have "length (filter (\<lambda>c. c = 1) (r[n := 0])) < length (filter (\<lambda>c. c = 1) r)"
      using Cons.IH[of n] by simp
    with Suc show ?thesis by simp
  qed
qed

lemma count_update_le:
  "length (filter (\<lambda>c. c = 1) (r[j := (0::int)])) \<le> length (filter (\<lambda>c. c = 1) r)"
proof (induction r arbitrary: j)
  case Nil
  then show ?case by simp
next
  case (Cons a r)
  then show ?case by (cases j) (auto simp: le_SucI)
qed

lemma walls_setCell_le: "walls (setCell maze x y 0) \<le> walls maze"
proof (cases "0 \<le> y \<and> y < int (length maze) \<and> 0 \<le> x \<and> x < int (length (maze ! nat y))")
  case True
  then have i: "nat y < length maze" by linarith
  from walls_update_row[OF i, of "(maze ! nat y)[nat x := 0]"]
    count_update_le[where r = "maze ! nat y" and j = "nat x"] True
  show ?thesis by (simp add: setCell_def)
next
  case False
  show ?thesis unfolding setCell_def by (simp only: False if_False le_refl)
qed

lemma walls_setCell_less:
  assumes "cellAt maze x y = Some 1"
  shows "walls (setCell maze x y 0) < walls maze"
proof -
  from assms have r: "0 \<le> y \<and> y < int (length maze) \<and> 0 \<le> x \<and> x < int (length (maze ! nat y))"
    and v: "maze ! nat y ! nat x = 1"
    by (auto simp: cellAt_def split: if_splits)
  from r have i: "nat y < length maze" and j: "nat x < length (maze ! nat y)" by linarith+
  from walls_update_row[OF i, of "(maze ! nat y)[nat x := 0]"] count_update_wall[OF j v] r
  show ?thesis by (simp add: setCell_def)
qed

lemma validNeighbors_hd_wall:
  assumes "validNeighbors width height maze current dirs = (nx, ny, dx, dy) # rest"
  shows "cellAt maze nx ny = Some 1"
proof -
  have "(nx, ny, dx, dy) \<in> set (validNeighbors width height maze current dirs)"
    using assms by simp
  then show ?thesis by (auto simp: validNeighbors_def Let_def)
qed

text \<open>
  The \<^verbatim>\<open>while (stack.length > 0)\<close> loop. The head of the list is the top of the
  stack (\<^verbatim>\<open>stack[stack.length - 1]\<close>); \<open>k\<close> counts the iterations for the random
  source, and \<open>dirs\<close> is the array \<^verbatim>\<open>directions\<close>, which keeps the order of the
  last sort. An iteration carves the first candidate and the cell between, and pushes
  the candidate; without a candidate it pops.
\<close>

function carve :: "shuffle \<Rightarrow> int \<Rightarrow> int \<Rightarrow> nat \<Rightarrow> cell list \<Rightarrow> grid \<Rightarrow> cell list \<Rightarrow> grid" where
  "carve sh width height k dirs maze stack =
     (case stack of
        [] \<Rightarrow> maze
      | current # below \<Rightarrow>
          (case validNeighbors width height maze current (sh k dirs) of
             [] \<Rightarrow> carve sh width height (Suc k) (sh k dirs) maze below
           | (nx, ny, dx, dy) # _ \<Rightarrow>
               carve sh width height (Suc k) (sh k dirs)
                 (setCell (setCell maze nx ny 0) (fst current + dx) (snd current + dy) 0)
                 ((nx, ny) # stack)))"
  by pat_completeness auto
termination
proof (relation "measure (\<lambda>(sh, width, height, k, dirs, maze, stack). 2 * walls maze + length stack)")
  show "wf (measure (\<lambda>(sh, width, height, k, dirs, maze, stack). 2 * walls maze + length stack))"
    by simp
next
  fix sh :: shuffle and width height :: int and k :: nat and dirs :: "cell list"
    and maze :: grid and stack :: "cell list" and current below
  assume "stack = current # below"
  then show "((sh, width, height, Suc k, sh k dirs, maze, below), (sh, width, height, k, dirs, maze, stack))
        \<in> measure (\<lambda>(sh, width, height, k, dirs, maze, stack). 2 * walls maze + length stack)"
    by simp
next
  fix sh :: shuffle and width height :: int and k :: nat and dirs :: "cell list"
    and maze :: grid and stack :: "cell list" and current below n rest nx r1 ny r2 dx dy
  assume s: "stack = current # below"
    and v: "validNeighbors width height maze current (sh k dirs) = n # rest"
    and n: "(nx, r1) = n" "(ny, r2) = r1" "(dx, dy) = r2"
  from v n have "cellAt maze nx ny = Some 1"
    using validNeighbors_hd_wall[of width height maze current "sh k dirs" nx ny dx dy rest] by auto
  then have "walls (setCell maze nx ny 0) < walls maze" by (rule walls_setCell_less)
  moreover have "walls (setCell (setCell maze nx ny 0) (fst current + dx) (snd current + dy) 0)
        \<le> walls (setCell maze nx ny 0)" by (rule walls_setCell_le)
  ultimately show "((sh, width, height, Suc k, sh k dirs,
          setCell (setCell maze nx ny 0) (fst current + dx) (snd current + dy) 0, (nx, ny) # stack),
         (sh, width, height, k, dirs, maze, stack))
        \<in> measure (\<lambda>(sh, width, height, k, dirs, maze, stack). 2 * walls maze + length stack)"
    by simp
qed

text \<open>
  \<^verbatim>\<open>generateMaze(width, height)\<close>: all walls, the start cell (1, 1) carved, the
  loop from the start cell, and the exit cell carved at the end.
\<close>

definition generateMaze :: "shuffle \<Rightarrow> int \<Rightarrow> int \<Rightarrow> grid" where
  "generateMaze sh width height =
     (let maze = replicate (nat height) (replicate (nat width) 1);
          startX = 1;
          startY = 1;
          maze = setCell maze startX startY 0;
          maze = carve sh width height 0 directions maze [(startX, startY)]
      in setCell maze (width - 2) (height - 2) 0)"


subsection \<open>What a solvable maze is\<close>

text \<open>
  A path cell holds \<open>0\<close>. Two cells are adjacent when they differ by one step in one
  coordinate. \<open>connected maze a b\<close>: a walk of adjacent path cells leads from \<open>a\<close> to \<open>b\<close>.
\<close>

definition isPath :: "grid \<Rightarrow> cell \<Rightarrow> bool" where
  "isPath maze c = (cellAt maze (fst c) (snd c) = Some 0)"

definition adjacent :: "cell \<Rightarrow> cell \<Rightarrow> bool" where
  "adjacent a b = (\<bar>fst a - fst b\<bar> + \<bar>snd a - snd b\<bar> = 1)"

inductive connected :: "grid \<Rightarrow> cell \<Rightarrow> cell \<Rightarrow> bool" for maze :: grid and a :: cell where
  here: "isPath maze a \<Longrightarrow> connected maze a a"
| step: "connected maze a b \<Longrightarrow> adjacent b c \<Longrightarrow> isPath maze c \<Longrightarrow> connected maze a c"

text \<open>
  The bounds test of the loop, and the cells the loop can stand on: those inside the
  border with two odd coordinates.
\<close>

definition inside :: "int \<Rightarrow> int \<Rightarrow> cell \<Rightarrow> bool" where
  "inside width height c = (fst c > 0 \<and> fst c < width - 1 \<and> snd c > 0 \<and> snd c < height - 1)"

definition node :: "int \<Rightarrow> int \<Rightarrow> cell \<Rightarrow> bool" where
  "node width height c = (inside width height c \<and> odd (fst c) \<and> odd (snd c))"

text \<open>
  The invariant of the loop: the grid keeps its size and holds only 0 and 1; the start
  is carved; the stack holds carved nodes; every carved cell is connected to the start;
  and a carved node that has left the stack has no wall left among its neighbours.
\<close>

definition carveInv :: "int \<Rightarrow> int \<Rightarrow> grid \<Rightarrow> cell list \<Rightarrow> bool" where
  "carveInv width height maze stack =
     ((\<forall>x y. (cellAt maze x y \<noteq> None) = (0 \<le> x \<and> x < width \<and> 0 \<le> y \<and> y < height)) \<and>
      (\<forall>x y v. cellAt maze x y = Some v \<longrightarrow> v = 0 \<or> v = 1) \<and>
      isPath maze (1, 1) \<and>
      (\<forall>c \<in> set stack. node width height c \<and> isPath maze c) \<and>
      (\<forall>c. isPath maze c \<longrightarrow> connected maze (1, 1) c) \<and>
      (\<forall>c d. node width height c \<longrightarrow> isPath maze c \<longrightarrow> c \<notin> set stack \<longrightarrow> d \<in> set directions \<longrightarrow>
             inside width height (fst c + fst d, snd c + snd d) \<longrightarrow>
             isPath maze (fst c + fst d, snd c + snd d)))"

section \<open>Rooms and players\<close>

text \<open>
  The status of a room is one of four string literals in the source. Numbers that
  count players, rounds and wins are integers; a number read with \<^verbatim>\<open>parseInt\<close> is
  an integer or \<^verbatim>\<open>NaN\<close>, which is \<open>None\<close>, and every comparison with it is false.
  A field that the source has not assigned yet (\<^verbatim>\<open>undefined\<close>) is \<open>None\<close> too.
  Times of the clock are integer milliseconds; a finish time is their difference
  divided by 1000, kept as a rational (the division keeps the order of the differences).
\<close>

datatype status = waiting | playing | round_over | game_over

record player =
  pid :: string
  name :: string
  score :: int
  color :: string
  posX :: "int option"
  posY :: "int option"
  finished :: "bool option"
  finishTime :: "int option"
  lastFinishTime :: "rat option"

record room =
  rid :: string
  players :: "player list"
  maxPlayers :: "int option"
  totalRounds :: "int option"
  currentRound :: int
  status :: status
  maze :: "grid option"
  startTime :: "int option"

text \<open>
  The table \<^verbatim>\<open>rooms\<close>: an object keyed by room code, here the list of its entries
  in the order of their creation. A lookup finds the entries the server has stored; the
  property names that every object inherits are not room codes and are not modelled.
\<close>

type_synonym rooms = "(string \<times> room) list"

text \<open>What a handler sends: to one socket, to a whole room, or to a room except the sender.\<close>

datatype audience = ToSocket string | ToRoom string | ToRoomExcept string string

datatype message =
    RoomCreated string bool room
  | PlayerJoined "player list" string "int option"
  | PlayerLeft "player list"
  | GameStart grid int "player list" int string
  | PlayerMoved string "int option \<times> int option"
  | PlayerFinished string "rat option" "player list"
  | RoundResult player "player list" int "int option" bool
  | ResetToLobby "player list"
  | ErrorMsg string

type_synonym emit = "audience \<times> message"

text \<open>Comparisons of a number with one that may be \<^verbatim>\<open>NaN\<close>.\<close>

definition numGe :: "int \<Rightarrow> int option \<Rightarrow> bool" where
  "numGe a b = (case b of None \<Rightarrow> False | Some n \<Rightarrow> a \<ge> n)"

definition numEq :: "int \<Rightarrow> int option \<Rightarrow> bool" where
  "numEq a b = (case b of None \<Rightarrow> False | Some n \<Rightarrow> a = n)"

definition numLt :: "int \<Rightarrow> int option \<Rightarrow> bool" where
  "numLt a b = (case b of None \<Rightarrow> False | Some n \<Rightarrow> a < n)"

text \<open>
  \<^verbatim>\<open>players.find(p => ...)\<close> gives the first matching player object, which the
  handlers then mutate in place; the model finds its index and updates the list there.
\<close>

fun findIndex :: "('a \<Rightarrow> bool) \<Rightarrow> 'a list \<Rightarrow> nat option" where
  "findIndex P [] = None"
| "findIndex P (a # as) = (if P a then Some 0 else map_option Suc (findIndex P as))"

subsection \<open>Room codes\<close>

definition characters :: string where
  "characters = ''ABCDEFGHJKLMNPQRSTUVWXYZ23456789''"

text \<open>\<^verbatim>\<open>charAt\<close> gives the empty string outside the string.\<close>

definition charAt :: "string \<Rightarrow> int \<Rightarrow> string" where
  "charAt s i = (if 0 \<le> i \<and> i < int (length s) then [s ! nat i] else [])"

text \<open>
  \<^verbatim>\<open>Math.random()\<close> is a parameter: the sequence \<open>rnd\<close> of the numbers it returns,
  each in the interval from 0 (included) to 1 (excluded).
\<close>

definition unitInterval :: "(nat \<Rightarrow> rat) \<Rightarrow> bool" where
  "unitInterval rnd = (\<forall>n. 0 \<le> rnd n \<and> rnd n < 1)"

definition randomCode :: "(nat \<Rightarrow> rat) \<Rightarrow> nat \<Rightarrow> string" where
  "randomCode rnd n =
     foldl (\<lambda>result i. result @ charAt characters \<lfloor>rnd (n + i) * of_nat (length characters)\<rfloor>)
       [] [0..<4]"

text \<open>
  \<^verbatim>\<open>generateRoomCode\<close> calls itself again when the code is taken, so it may not
  return: \<open>None\<close> is that case. \<open>n\<close> counts the random numbers used so far.
\<close>

partial_function (option) generateRoomCode :: "(nat \<Rightarrow> rat) \<Rightarrow> nat \<Rightarrow> rooms \<Rightarrow> string option" where
  "generateRoomCode rnd n rooms =
     (let result = randomCode rnd n
      in if map_of rooms result \<noteq> None then generateRoomCode rnd (n + 4) rooms else Some result)"

subsection \<open>Starting a round\<close>

definition startRound :: "shuffle \<Rightarrow> int \<Rightarrow> string \<Rightarrow> rooms \<Rightarrow> rooms \<times> emit list" where
  "startRound sh now roomCode rooms =
     (case map_of rooms roomCode of
        None \<Rightarrow> (rooms, [])
      | Some room \<Rightarrow>
          let room = room\<lparr>status := playing\<rparr>;
              room = room\<lparr>maze := Some (generateMaze sh 21 21)\<rparr>;
              room = room\<lparr>startTime := Some now\<rparr>;
              room = room\<lparr>players :=
                       map (\<lambda>p. p\<lparr>posX := Some 1, posY := Some 1,
                                   finished := Some False, finishTime := Some 0\<rparr>) (players room)\<rparr>
          in (AList.update roomCode room rooms,
              [(ToRoom roomCode,
                GameStart (generateMaze sh 21 21) (currentRound room) (players room) now roomCode)]))"

subsection \<open>The handlers of the socket events\<close>

text \<open>
  Each handler takes the id of the socket it runs for, the payload of the event, and the
  values it draws from the clock and the random source; it returns the table and the
  messages it sent. \<^verbatim>\<open>createRoom\<close> returns nothing when the code generator does not.
\<close>

definition createRoom :: "(nat \<Rightarrow> rat) \<Rightarrow> string \<Rightarrow> string \<Rightarrow> int option \<Rightarrow> int option \<Rightarrow> rooms
    \<Rightarrow> (rooms \<times> emit list) option" where
  "createRoom rnd socketId playerName maxPlayersArg totalRoundsArg rooms =
     (case generateRoomCode rnd 0 rooms of
        None \<Rightarrow> None
      | Some roomCode \<Rightarrow>
          let room = \<lparr>rid = roomCode,
                      players = [\<lparr>pid = socketId, name = playerName, score = 0, color = ''#FF4136'',
                                  posX = None, posY = None, finished = None, finishTime = None,
                                  lastFinishTime = None\<rparr>],
                      maxPlayers = maxPlayersArg,
                      totalRounds = totalRoundsArg,
                      currentRound = 1,
                      status = waiting,
                      maze = None,
                      startTime = None\<rparr>
          in Some (AList.update roomCode room rooms,
                   [(ToSocket socketId, RoomCreated roomCode True room)]))"

definition colors :: "string list" where
  "colors = [''#FF4136'', ''#2ECC40'', ''#0074D9'', ''#FFDC00'', ''#B10DC9'',
             ''#FF851B'', ''#39CCCC'', ''#F012BE'', ''#01FF70'', ''#AAAAAA'']"

definition joinRoom :: "shuffle \<Rightarrow> int \<Rightarrow> string \<Rightarrow> string \<Rightarrow> string \<Rightarrow> rooms \<Rightarrow> rooms \<times> emit list" where
  "joinRoom sh now socketId playerName roomCode rooms =
     (case map_of rooms roomCode of
        None \<Rightarrow> (rooms, [(ToSocket socketId, ErrorMsg ''Room not found'')])
      | Some room \<Rightarrow>
          if status room \<noteq> waiting
          then (rooms, [(ToSocket socketId, ErrorMsg ''Game already in progress'')])
          else if numGe (int (length (players room))) (maxPlayers room)
          then (rooms, [(ToSocket socketId, ErrorMsg ''Room is full'')])
          else
            let playerColor = colors ! (length (players room) mod length colors);
                newPlayer = \<lparr>pid = socketId, name = playerName, score = 0, color = playerColor,
                             posX = None, posY = None, finished = None, finishTime = None,
                             lastFinishTime = None\<rparr>;
                room = room\<lparr>players := players room @ [newPlayer]\<rparr>;
                rooms = AList.update roomCode room rooms;
                joined = (ToRoom roomCode, PlayerJoined (players room) roomCode (maxPlayers room))
            in if numEq (int (length (players room))) (maxPlayers room)
               then (case startRound sh now roomCode rooms of
                       (rooms, started) \<Rightarrow> (rooms, joined # started))
               else (rooms, [joined]))"

definition playerMove :: "string \<Rightarrow> string \<Rightarrow> int option \<times> int option \<Rightarrow> rooms \<Rightarrow> rooms \<times> emit list" where
  "playerMove socketId roomCode position rooms =
     (case map_of rooms roomCode of
        None \<Rightarrow> (rooms, [])
      | Some room \<Rightarrow>
          if status room \<noteq> playing then (rooms, [])
          else
            let moved = (ToRoomExcept roomCode socketId, PlayerMoved socketId position)
            in (case findIndex (\<lambda>p. pid p = socketId) (players room) of
                  None \<Rightarrow> (rooms, [moved])
                | Some i \<Rightarrow>
                    let player = (players room ! i)\<lparr>posX := fst position, posY := snd position\<rparr>
                    in (AList.update roomCode (room\<lparr>players := (players room)[i := player]\<rparr>) rooms,
                        [moved])))"


text \<open>
  The finish time \<^verbatim>\<open>(Date.now() - room.startTime) / 1000\<close>; without a start time
  it is \<^verbatim>\<open>NaN\<close>.
\<close>

definition elapsed :: "int \<Rightarrow> int option \<Rightarrow> rat option" where
  "elapsed now start = (case start of None \<Rightarrow> None | Some t \<Rightarrow> Some (of_int (now - t) / 1000))"

text \<open>
  \<^verbatim>\<open>[...room.players].sort((a, b) => a.lastFinishTime - b.lastFinishTime)[0]\<close>.
  The comparator gives a number, or \<^verbatim>\<open>NaN\<close> when a time is missing. The sort of
  arrays is stable and takes a \<^verbatim>\<open>NaN\<close> from the comparator for 0; it is an insertion
  from the right here, which moves an element behind another only when the comparator
  is positive. The copied array holds the player objects themselves, and the winner is
  mutated afterwards, so the model sorts the indices of the players.
\<close>

definition byFinishTime :: "player \<Rightarrow> player \<Rightarrow> rat option" where
  "byFinishTime a b =
     (case lastFinishTime a of
        None \<Rightarrow> None
      | Some s \<Rightarrow> (case lastFinishTime b of None \<Rightarrow> None | Some t \<Rightarrow> Some (s - t)))"

definition positive :: "rat option \<Rightarrow> bool" where
  "positive v = (case v of None \<Rightarrow> False | Some d \<Rightarrow> d > 0)"

fun insertCmp :: "('a \<Rightarrow> 'a \<Rightarrow> rat option) \<Rightarrow> 'a \<Rightarrow> 'a list \<Rightarrow> 'a list" where
  "insertCmp cmp a [] = [a]"
| "insertCmp cmp a (b # bs) = (if positive (cmp a b) then b # insertCmp cmp a bs else a # b # bs)"

definition sortCmp :: "('a \<Rightarrow> 'a \<Rightarrow> rat option) \<Rightarrow> 'a list \<Rightarrow> 'a list" where
  "sortCmp cmp xs = foldr (insertCmp cmp) xs []"

definition roundWinnerIndex :: "player list \<Rightarrow> nat" where
  "roundWinnerIndex ps = hd (sortCmp (\<lambda>i j. byFinishTime (ps ! i) (ps ! j)) [0..<length ps])"

text \<open>\<^verbatim>\<open>Math.ceil(room.totalRounds / 2)\<close>.\<close>

definition winsNeeded :: "int option \<Rightarrow> int option" where
  "winsNeeded rounds = map_option (\<lambda>t. \<lceil>(of_int t :: rat) / 2\<rceil>) rounds"

definition playerWon :: "int \<Rightarrow> string \<Rightarrow> string \<Rightarrow> rooms \<Rightarrow> rooms \<times> emit list" where
  "playerWon now socketId roomCode rooms =
     (case map_of rooms roomCode of
        None \<Rightarrow> (rooms, [])
      | Some room \<Rightarrow>
          if status room \<noteq> playing then (rooms, [])
          else
            (case findIndex (\<lambda>p. pid p = socketId) (players room) of
               None \<Rightarrow> (rooms, [])
             | Some i \<Rightarrow>
                 if finished (players room ! i) = Some True then (rooms, [])
                 else
                   let finishTime = elapsed now (startTime room);
                       player = (players room ! i)\<lparr>finished := Some True, lastFinishTime := finishTime\<rparr>;
                       room = room\<lparr>players := (players room)[i := player]\<rparr>;
                       allFinished = list_all (\<lambda>p. finished p = Some True) (players room)
                   in if allFinished
                      then
                        let room = room\<lparr>status := round_over\<rparr>;
                            w = roundWinnerIndex (players room);
                            roundWinner = (players room ! w)\<lparr>score := score (players room ! w) + 1\<rparr>;
                            room = room\<lparr>players := (players room)[w := roundWinner]\<rparr>;
                            isGrandWinner = (numGe (score roundWinner) (winsNeeded (totalRounds room))
                                             \<or> numEq (currentRound room) (totalRounds room));
                            result = (ToRoom roomCode,
                                      RoundResult roundWinner (players room) (currentRound room)
                                        (totalRounds room) isGrandWinner);
                            room = (if isGrandWinner then room\<lparr>status := game_over\<rparr> else room)
                        in (AList.update roomCode room rooms, [result])
                      else (AList.update roomCode room rooms,
                            [(ToRoom roomCode, PlayerFinished (pid player) finishTime (players room))])))"

definition requestNextRound :: "shuffle \<Rightarrow> int \<Rightarrow> string \<Rightarrow> rooms \<Rightarrow> rooms \<times> emit list" where
  "requestNextRound sh now roomCode rooms =
     (case map_of rooms roomCode of
        None \<Rightarrow> (rooms, [])
      | Some room \<Rightarrow>
          if status room \<noteq> round_over then (rooms, [])
          else if numLt (currentRound room) (totalRounds room)
          then startRound sh now roomCode
                 (AList.update roomCode (room\<lparr>currentRound := currentRound room + 1\<rparr>) rooms)
          else (rooms, []))"

definition requestPlayAgain :: "string \<Rightarrow> rooms \<Rightarrow> rooms \<times> emit list" where
  "requestPlayAgain roomCode rooms =
     (case map_of rooms roomCode of
        None \<Rightarrow> (rooms, [])
      | Some room \<Rightarrow>
          let room = room\<lparr>currentRound := 1\<rparr>;
              room = room\<lparr>players := map (\<lambda>p. p\<lparr>score := 0\<rparr>) (players room)\<rparr>;
              room = room\<lparr>status := waiting\<rparr>
          in (AList.update roomCode room rooms, [(ToRoom roomCode, ResetToLobby (players room))]))"

text \<open>
  \<^verbatim>\<open>for (const code in rooms)\<close> visits the keys that are array indices first, in
  ascending order, and then the other keys in the order of their creation.
\<close>

definition digitsValue :: "string \<Rightarrow> nat" where
  "digitsValue s = foldl (\<lambda>n c. 10 * n + (of_char c - 48)) 0 s"

definition isArrayIndex :: "string \<Rightarrow> bool" where
  "isArrayIndex s =
     (s \<noteq> [] \<and> list_all (\<lambda>c. c \<in> set ''0123456789'') s \<and> (s = ''0'' \<or> hd s \<noteq> CHR ''0'')
      \<and> digitsValue s < 2 ^ 32 - 1)"

definition forInKeys :: "rooms \<Rightarrow> string list" where
  "forInKeys rooms =
     (let keys = map fst rooms
      in sort_key digitsValue (filter isArrayIndex keys) @ filter (\<lambda>k. \<not> isArrayIndex k) keys)"

fun disconnectLoop :: "string \<Rightarrow> string list \<Rightarrow> rooms \<Rightarrow> rooms \<times> emit list" where
  "disconnectLoop socketId [] rooms = (rooms, [])"
| "disconnectLoop socketId (code # codes) rooms =
     (case map_of rooms code of
        None \<Rightarrow> disconnectLoop socketId codes rooms
      | Some room \<Rightarrow>
          (case findIndex (\<lambda>p. pid p = socketId) (players room) of
             None \<Rightarrow> disconnectLoop socketId codes rooms
           | Some playerIndex \<Rightarrow>
               let room = room\<lparr>players := take playerIndex (players room)
                                            @ drop (Suc playerIndex) (players room)\<rparr>;
                   left = (ToRoom code, PlayerLeft (players room))
               in if length (players room) = 0
                  then (AList.delete code rooms, [left])
                  else (AList.update code room rooms, [left])))"

definition disconnect :: "string \<Rightarrow> rooms \<Rightarrow> rooms \<times> emit list" where
  "disconnect socketId rooms = disconnectLoop socketId (forInKeys rooms) rooms"

subsection \<open>Sequences of client actions\<close>

text \<open>
  One action is one event of one socket, with the values the handler draws from the
  clock and the random source. The server handles one event to its end before the next.
\<close>

datatype action =
    CreateRoom "nat \<Rightarrow> rat" string string "int option" "int option"
  | JoinRoom shuffle int string string string
  | PlayerMove string string "int option \<times> int option"
  | PlayerWon int string string
  | RequestNextRound shuffle int string
  | RequestPlayAgain string
  | Disconnect string

fun perform :: "action \<Rightarrow> rooms \<Rightarrow> (rooms \<times> emit list) option" where
  "perform (CreateRoom rnd socketId playerName maxPlayersArg totalRoundsArg) rooms =
     createRoom rnd socketId playerName maxPlayersArg totalRoundsArg rooms"
| "perform (JoinRoom sh now socketId playerName roomCode) rooms =
     Some (joinRoom sh now socketId playerName roomCode rooms)"
| "perform (PlayerMove socketId roomCode position) rooms =
     Some (playerMove socketId roomCode position rooms)"
| "perform (PlayerWon now socketId roomCode) rooms = Some (playerWon now socketId roomCode rooms)"
| "perform (RequestNextRound sh now roomCode) rooms = Some (requestNextRound sh now roomCode rooms)"
| "perform (RequestPlayAgain roomCode) rooms = Some (requestPlayAgain roomCode rooms)"
| "perform (Disconnect socketId) rooms = Some (disconnect socketId rooms)"

fun run :: "action list \<Rightarrow> rooms \<Rightarrow> rooms option" where
  "run [] rooms = Some rooms"
| "run (a # as) rooms =
     (case perform a rooms of None \<Rightarrow> None | Some (rooms', sent) \<Rightarrow> run as rooms')"


subsection \<open>The bound on the players of a room\<close>

text \<open>
  A room whose \<open>maxPlayers\<close> is a number of at least 1 holds at most that many players.
\<close>

definition withinCapacity :: "rooms \<Rightarrow> bool" where
  "withinCapacity rooms =
     (\<forall>code room m. map_of rooms code = Some room \<longrightarrow> maxPlayers room = Some m \<longrightarrow> 1 \<le> m \<longrightarrow>
        int (length (players room)) \<le> m)"

subsection \<open>Finish times are on record\<close>

text \<open>
  A playing room has a start time, and a player marked finished has a finish time.
\<close>

definition timedRoom :: "room \<Rightarrow> bool" where
  "timedRoom room =
     ((status room = playing \<longrightarrow> startTime room \<noteq> None) \<and>
      (\<forall>p \<in> set (players room). finished p = Some True \<longrightarrow> lastFinishTime p \<noteq> None))"

definition timed :: "rooms \<Rightarrow> bool" where
  "timed rooms = (\<forall>code room. map_of rooms code = Some room \<longrightarrow> timedRoom room)"

subsection \<open>The steps of the status\<close>

text \<open>
  The changes of status that the round lifecycle allows within one handler: none, from
  \<open>waiting\<close> to \<open>playing\<close>, from \<open>playing\<close> to \<open>round_over\<close> or on to \<open>game_over\<close>, and
  from \<open>round_over\<close> to \<open>playing\<close>.
\<close>

definition statusStep :: "status \<Rightarrow> status \<Rightarrow> bool" where
  "statusStep s s' =
     (s' = s \<or> (s = waiting \<and> s' = playing) \<or> (s = playing \<and> (s' = round_over \<or> s' = game_over))
      \<or> (s = round_over \<and> s' = playing))"

section \<open>Example rooms\<close>

text \<open>
  Concrete inputs for the theorems below. \<open>zeroRandom\<close> is a random source that always
  returns 0, so that every character drawn is \<open>A\<close>; \<open>retryRandom\<close> draws \<open>AAAA\<close>
  first and \<open>BBBB\<close> next; \<open>keepOrder\<close> is a sort that leaves the directions as they
  are. \<open>newcomer\<close> is a player as \<open>createRoom\<close> and \<open>joinRoom\<close> make one, \<open>racer\<close> a
  player after a round has started. \<open>hostRoom\<close> is the room that \<open>createRoom\<close> makes for
  Ann with \<open>zeroRandom\<close>, \<open>playingRoom\<close> that room after Bob has joined at time 1000, and
  \<open>trioRoom\<close> a room of three in its first round of five, where Bob and Cy have both
  finished after 3.2 seconds and Ann is still running, and \<open>raceRoom\<close> the like in the
  fourth round, where P2 has won twice and P3 once.
\<close>

definition zeroRandom :: "nat \<Rightarrow> rat" where
  "zeroRandom n = 0"

definition keepOrder :: shuffle where
  "keepOrder k ds = ds"

definition newcomer :: "string \<Rightarrow> string \<Rightarrow> string \<Rightarrow> player" where
  "newcomer socketId playerName playerColor =
     \<lparr>pid = socketId, name = playerName, score = 0, color = playerColor,
      posX = None, posY = None, finished = None, finishTime = None, lastFinishTime = None\<rparr>"

definition racer :: "string \<Rightarrow> string \<Rightarrow> string \<Rightarrow> int \<Rightarrow> bool \<Rightarrow> rat option \<Rightarrow> player" where
  "racer socketId playerName playerColor wins isDone lastTime =
     \<lparr>pid = socketId, name = playerName, score = wins, color = playerColor,
      posX = Some 1, posY = Some 1, finished = Some isDone, finishTime = Some 0, lastFinishTime = lastTime\<rparr>"

definition hostRoom :: "int option \<Rightarrow> int option \<Rightarrow> room" where
  "hostRoom limit rounds =
     \<lparr>rid = ''AAAA'', players = [newcomer ''s1'' ''Ann'' ''#FF4136''], maxPlayers = limit,
      totalRounds = rounds, currentRound = 1, status = waiting, maze = None, startTime = None\<rparr>"

definition trioRoom :: room where
  "trioRoom =
     \<lparr>rid = ''AAAA'',
      players = [racer ''s1'' ''Ann'' ''#FF4136'' 0 False None,
                 racer ''s2'' ''Bob'' ''#2ECC40'' 0 True (Some (16 / 5)),
                 racer ''s3'' ''Cy'' ''#0074D9'' 0 True (Some (16 / 5))],
      maxPlayers = Some 3, totalRounds = Some 5, currentRound = 1, status = playing,
      maze = Some (generateMaze keepOrder 21 21), startTime = Some 1000\<rparr>"

definition playingRoom :: room where
  "playingRoom =
     \<lparr>rid = ''AAAA'',
      players = [racer ''s1'' ''Ann'' ''#FF4136'' 0 False None, racer ''s2'' ''Bob'' ''#2ECC40'' 0 False None],
      maxPlayers = Some 2, totalRounds = Some 3, currentRound = 1, status = playing,
      maze = Some (generateMaze keepOrder 21 21), startTime = Some 1000\<rparr>"

definition raceRoom :: room where
  "raceRoom =
     \<lparr>rid = ''RACE'',
      players = [racer ''s1'' ''P1'' ''#FF4136'' 0 False None,
                 racer ''s2'' ''P2'' ''#2ECC40'' 2 True (Some (16 / 5)),
                 racer ''s3'' ''P3'' ''#0074D9'' 1 True (Some (16 / 5))],
      maxPlayers = Some 3, totalRounds = Some 5, currentRound = 4, status = playing,
      maze = Some (generateMaze keepOrder 21 21), startTime = Some 1000\<rparr>"

definition retryRandom :: "nat \<Rightarrow> rat" where
  "retryRandom n = (if n < 4 then 0 else 1 / 32)"

section \<open>The maze generator always gives a solvable maze\<close>

subsection \<open>Reading and writing cells\<close>

lemma length_setCell: "length (setCell g x y v) = length g"
  by (simp add: setCell_def)

lemma row_length_setCell: "length (setCell g x y v ! i) = length (g ! i)"
  by (cases "i < length g") (auto simp: setCell_def nth_list_update)

lemma lengths_setCell: "map length (setCell g x y v) = map length g"
  by (rule nth_equalityI) (simp_all add: length_setCell row_length_setCell)

lemma cellAt_setCell:
  "cellAt (setCell g x y v) x' y' =
     (if x' = x \<and> y' = y \<and> cellAt g x y \<noteq> None then Some v else cellAt g x' y')"
proof (cases "0 \<le> y \<and> y < int (length g) \<and> 0 \<le> x \<and> x < int (length (g ! nat y))")
  case True
  then have s: "setCell g x y v = g[nat y := (g ! nat y)[nat x := v]]"
    by (simp add: setCell_def)
  from True have n: "cellAt g x y \<noteq> None" by (simp add: cellAt_def)
  from True have i: "nat y < length g" and j: "nat x < length (g ! nat y)" by linarith+
  show ?thesis
  proof (cases "y' = y")
    case y: True
    show ?thesis
    proof (cases "x' = x")
      case True
      with y n s i j \<open>0 \<le> y \<and> _\<close> show ?thesis by (simp add: cellAt_def)
    next
      case False
      with y s i j \<open>0 \<le> y \<and> _\<close> show ?thesis
        by (auto simp: cellAt_def nth_list_update nat_eq_iff)
    qed
  next
    case False
    with s True i j show ?thesis
      by (auto simp: cellAt_def nth_list_update nat_eq_iff)
  qed
next
  case False
  then have "setCell g x y v = g" unfolding setCell_def by (simp only: if_False)
  moreover from False have "cellAt g x y = None" unfolding cellAt_def by (simp only: if_False)
  ultimately show ?thesis by simp
qed

lemma isPath_setCell: "isPath g c \<Longrightarrow> isPath (setCell g x y 0) c"
  by (simp add: isPath_def cellAt_setCell)

lemma connected_mono:
  assumes "connected g a b" and "\<And>c. isPath g c \<Longrightarrow> isPath g' c"
  shows "connected g' a b"
  using assms(1)
proof (induction rule: connected.induct)
  case here
  then show ?case by (simp add: assms(2) connected.here)
next
  case (step b c)
  then show ?case by (meson assms(2) connected.step)
qed

lemma direction_halves:
  assumes "d \<in> set directions"
  shows "fst d = 2 * (fst d div 2) \<and> snd d = 2 * (snd d div 2)
         \<and> \<bar>fst d div 2\<bar> + \<bar>snd d div 2\<bar> = 1"
  using assms by (auto simp: directions_def)


lemma validNeighbors_empty:
  assumes "validNeighbors width height g c ds = []" "d \<in> set ds"
    "inside width height (fst c + fst d, snd c + snd d)"
  shows "cellAt g (fst c + fst d) (snd c + snd d) \<noteq> Some 1"
proof -
  from assms(1) have "filter (\<lambda>dir. let nx = fst c + fst dir; ny = snd c + snd dir
                      in nx > 0 \<and> nx < width - 1 \<and> ny > 0 \<and> ny < height - 1
                         \<and> cellAt g nx ny = Some 1) ds = []"
    by (simp add: validNeighbors_def)
  with assms(2) have "\<not> (let nx = fst c + fst d; ny = snd c + snd d
                      in nx > 0 \<and> nx < width - 1 \<and> ny > 0 \<and> ny < height - 1
                         \<and> cellAt g nx ny = Some 1)"
    by (simp add: filter_empty_conv)
  with assms(3) show ?thesis by (simp add: inside_def Let_def)
qed

lemma validNeighbors_hd:
  assumes "validNeighbors width height g c ds = (nx, ny, dx, dy) # rest"
  shows "\<exists>d \<in> set ds. nx = fst c + fst d \<and> ny = snd c + snd d \<and> dx = fst d div 2 \<and> dy = snd d div 2
           \<and> inside width height (nx, ny) \<and> cellAt g nx ny = Some 1"
proof -
  have "(nx, ny, dx, dy) \<in> set (validNeighbors width height g c ds)"
    using assms by simp
  then show ?thesis by (auto simp: validNeighbors_def Let_def inside_def)
qed

lemma inside_has_cell:
  assumes "carveInv width height g stack" "inside width height (x, y)"
  shows "cellAt g x y = Some 0 \<or> cellAt g x y = Some 1"
proof -
  from assms(2) have "0 \<le> x \<and> x < width \<and> 0 \<le> y \<and> y < height" by (simp add: inside_def)
  with assms(1) have "cellAt g x y \<noteq> None" by (simp add: carveInv_def)
  then obtain v where v: "cellAt g x y = Some v" by auto
  with assms(1) have "v = 0 \<or> v = 1" unfolding carveInv_def by blast
  with v show ?thesis by auto
qed

lemma carveInv_pop:
  assumes inv: "carveInv width height g (c # below)" and ds: "set ds = set directions"
    and v: "validNeighbors width height g c ds = []"
  shows "carveInv width height g below"
proof -
  from inv have cov: "\<And>x y. (cellAt g x y \<noteq> None) = (0 \<le> x \<and> x < width \<and> 0 \<le> y \<and> y < height)"
    and bin: "\<And>x y v. cellAt g x y = Some v \<Longrightarrow> v = 0 \<or> v = 1"
    and start: "isPath g (1, 1)"
    and stk: "\<And>e. e \<in> set (c # below) \<Longrightarrow> node width height e \<and> isPath g e"
    and conn: "\<And>e. isPath g e \<Longrightarrow> connected g (1, 1) e"
    and closed: "\<And>e d'. node width height e \<Longrightarrow> isPath g e \<Longrightarrow> e \<notin> set (c # below) \<Longrightarrow>
         d' \<in> set directions \<Longrightarrow> inside width height (fst e + fst d', snd e + snd d') \<Longrightarrow>
         isPath g (fst e + fst d', snd e + snd d')"
    unfolding carveInv_def by blast+
  have top: "isPath g (fst c + fst d, snd c + snd d)"
    if "d \<in> set directions" "inside width height (fst c + fst d, snd c + snd d)" for d
  proof -
    from that ds v have "cellAt g (fst c + fst d) (snd c + snd d) \<noteq> Some 1"
      using validNeighbors_empty[of width height g c ds d] by simp
    with inside_has_cell[OF inv that(2)] show ?thesis by (simp add: isPath_def)
  qed
  have 4: "node width height e \<and> isPath g e" if "e \<in> set below" for e
    using that stk[of e] by simp
  have 6: "isPath g (fst e + fst d, snd e + snd d)"
    if "node width height e" "isPath g e" "e \<notin> set below" "d \<in> set directions"
      "inside width height (fst e + fst d, snd e + snd d)" for e d
  proof (cases "e = c")
    case True
    with that top show ?thesis by simp
  next
    case False
    with that closed[of e d] show ?thesis by simp
  qed
  show ?thesis
    unfolding carveInv_def
    using cov bin start 4 conn 6 by blast
qed

lemma carveInv_push:
  assumes inv: "carveInv width height g (c # below)" and ds: "set ds = set directions"
    and v: "validNeighbors width height g c ds = (nx, ny, dx, dy) # rest"
  shows "carveInv width height
           (setCell (setCell g nx ny 0) (fst c + dx) (snd c + dy) 0) ((nx, ny) # c # below)"
proof -
  define g' where "g' = setCell (setCell g nx ny 0) (fst c + dx) (snd c + dy) 0"
  from inv have cov: "\<And>x y. (cellAt g x y \<noteq> None) = (0 \<le> x \<and> x < width \<and> 0 \<le> y \<and> y < height)"
    and bin: "\<And>x y v. cellAt g x y = Some v \<Longrightarrow> v = 0 \<or> v = 1"
    and start: "isPath g (1, 1)"
    and stk: "\<And>e. e \<in> set (c # below) \<Longrightarrow> node width height e \<and> isPath g e"
    and conn: "\<And>e. isPath g e \<Longrightarrow> connected g (1, 1) e"
    and closed: "\<And>e d'. node width height e \<Longrightarrow> isPath g e \<Longrightarrow> e \<notin> set (c # below) \<Longrightarrow>
         d' \<in> set directions \<Longrightarrow> inside width height (fst e + fst d', snd e + snd d') \<Longrightarrow>
         isPath g (fst e + fst d', snd e + snd d')"
    unfolding carveInv_def by blast+
  from validNeighbors_hd[OF v] ds obtain d where d: "d \<in> set directions"
    and n: "nx = fst c + fst d" "ny = snd c + snd d" and h: "dx = fst d div 2" "dy = snd d div 2"
    and ins: "inside width height (nx, ny)" and wall: "cellAt g nx ny = Some 1"
    by auto
  from direction_halves[OF d] h have two: "fst d = 2 * dx" "snd d = 2 * dy" and one: "\<bar>dx\<bar> + \<bar>dy\<bar> = 1"
    by simp_all
  from stk[of c] have cn: "node width height c" and cp: "isPath g c" by simp_all
  have mid_in: "inside width height (fst c + dx, snd c + dy)"
    using cn ins n two by (auto simp: node_def inside_def)
  from one have "odd dx \<or> odd dy" by presburger
  then have mid_not_node: "\<not> node width height (fst c + dx, snd c + dy)"
    using cn by (auto simp: node_def)
  have next_node: "node width height (nx, ny)"
    using cn ins n two by (simp add: node_def)
  have mid_some: "cellAt g (fst c + dx) (snd c + dy) \<noteq> None"
    using mid_in unfolding cov inside_def by simp
  have next_some: "cellAt g nx ny \<noteq> None" using wall by simp
  have cell': "cellAt g' x y =
      (if (x, y) = (nx, ny) \<or> (x, y) = (fst c + dx, snd c + dy) then Some 0 else cellAt g x y)" for x y
    using mid_some next_some by (auto simp: g'_def cellAt_setCell)
  have path': "isPath g' e = (e = (nx, ny) \<or> e = (fst c + dx, snd c + dy) \<or> isPath g e)" for e
    by (cases e) (auto simp: isPath_def cell')
  have mono: "connected g' (1, 1) e" if "connected g (1, 1) e" for e
    using that by (rule connected_mono) (simp add: path')
  have conn_c: "connected g' (1, 1) c"
    using conn[OF cp] by (rule mono)
  have "adjacent c (fst c + dx, snd c + dy)" using one by (simp add: adjacent_def)
  with conn_c have conn_mid: "connected g' (1, 1) (fst c + dx, snd c + dy)"
    by (rule connected.step) (simp add: path')
  have "adjacent (fst c + dx, snd c + dy) (nx, ny)" using one n two by (simp add: adjacent_def)
  with conn_mid have conn_next: "connected g' (1, 1) (nx, ny)"
    by (rule connected.step) (simp add: path')
  have 1: "(cellAt g' x y \<noteq> None) = (0 \<le> x \<and> x < width \<and> 0 \<le> y \<and> y < height)" for x y
    using cov[of x y] mid_some next_some cov[of nx ny] cov[of "fst c + dx" "snd c + dy"]
    unfolding cell' by (auto split: if_splits)
  have 2: "v = 0 \<or> v = 1" if "cellAt g' x y = Some v" for x y v
    using that bin[of x y v] unfolding cell' by (auto split: if_splits)
  have 3: "isPath g' (1, 1)" using start by (simp add: path')
  have 4: "node width height e \<and> isPath g' e" if "e \<in> set ((nx, ny) # c # below)" for e
  proof (cases "e = (nx, ny)")
    case True
    with next_node show ?thesis by (simp add: path')
  next
    case False
    with that have "e \<in> set (c # below)" by simp
    from stk[OF this] show ?thesis by (simp add: path')
  qed
  have 5: "connected g' (1, 1) e" if "isPath g' e" for e
    using that conn_mid conn_next mono[OF conn[of e]] unfolding path' by blast
  have 6: "isPath g' (fst e + fst d', snd e + snd d')"
    if "node width height e" "isPath g' e" "e \<notin> set ((nx, ny) # c # below)" "d' \<in> set directions"
      "inside width height (fst e + fst d', snd e + snd d')" for e d'
  proof -
    from that(1,2,3) mid_not_node have "isPath g e" "e \<notin> set (c # below)"
      unfolding path' by auto
    with that have "isPath g (fst e + fst d', snd e + snd d')"
      using closed[of e d'] by simp
    then show ?thesis by (simp add: path')
  qed
  show ?thesis
    unfolding g'_def[symmetric] carveInv_def
    using 1 2 3 4 5 6 by blast
qed


declare carve.simps [simp del]

lemma carve_Nil: "carve sh width height k dirs g [] = g"
  by (subst carve.simps) simp

lemma carve_pop:
  "validNeighbors width height g c (sh k dirs) = [] \<Longrightarrow>
   carve sh width height k dirs g (c # below) = carve sh width height (Suc k) (sh k dirs) g below"
  by (subst carve.simps) simp

lemma carve_push:
  "validNeighbors width height g c (sh k dirs) = (nx, ny, dx, dy) # rest \<Longrightarrow>
   carve sh width height k dirs g (c # below) =
     carve sh width height (Suc k) (sh k dirs)
       (setCell (setCell g nx ny 0) (fst c + dx) (snd c + dy) 0) ((nx, ny) # c # below)"
  by (subst carve.simps) simp

lemma permuting_set: "permuting sh \<Longrightarrow> set (sh k ds) = set ds"
  unfolding permuting_def by (metis mset_eq_setD)

lemma carve_lengths: "map length (carve sh width height k dirs g stack) = map length g"
proof (induction sh width height k dirs g stack rule: carve.induct)
  case (1 sh width height k dirs g stack)
  show ?case
  proof (cases stack)
    case Nil
    then show ?thesis by (simp add: carve_Nil)
  next
    case (Cons c below)
    show ?thesis
    proof (cases "validNeighbors width height g c (sh k dirs)")
      case Nil
      with Cons "1.IH"(1) show ?thesis by (simp add: carve_pop)
    next
      case (Cons n rest)
      obtain nx ny dx dy where n: "n = (nx, ny, dx, dy)" by (cases n) auto
      from "1.IH"(2)[OF \<open>stack = c # below\<close> Cons[unfolded n] refl refl refl]
      show ?thesis using Cons \<open>stack = c # below\<close> n
        by (simp add: carve_push lengths_setCell)
    qed
  qed
qed

lemma carve_inv:
  "permuting sh \<Longrightarrow> carveInv width height g stack \<Longrightarrow> set dirs = set directions \<Longrightarrow>
   carveInv width height (carve sh width height k dirs g stack) []"
proof (induction sh width height k dirs g stack rule: carve.induct)
  case (1 sh width height k dirs g stack)
  from "1.prems" have ds: "set (sh k dirs) = set directions" by (simp add: permuting_set)
  show ?case
  proof (cases stack)
    case Nil
    with "1.prems" show ?thesis by (simp add: carve_Nil)
  next
    case st: (Cons c below)
    show ?thesis
    proof (cases "validNeighbors width height g c (sh k dirs)")
      case Nil
      from "1.prems"(2) st have "carveInv width height g below"
        using carveInv_pop[OF _ ds Nil] by simp
      from "1.IH"(1)[OF st Nil "1.prems"(1) this ds] st Nil show ?thesis
        by (simp add: carve_pop)
    next
      case (Cons n rest)
      obtain nx ny dx dy where n: "n = (nx, ny, dx, dy)" by (cases n) auto
      from "1.prems"(2) st have "carveInv width height
           (setCell (setCell g nx ny 0) (fst c + dx) (snd c + dy) 0) ((nx, ny) # stack)"
        using carveInv_push[OF _ ds Cons[unfolded n]] by simp
      from "1.IH"(2)[OF st Cons[unfolded n] refl refl refl "1.prems"(1) this ds] st Cons n
      show ?thesis by (simp add: carve_push)
    qed
  qed
qed

lemma carveInv_closed:
  assumes "carveInv width height g []" "node width height c" "isPath g c"
    "d \<in> set directions" "inside width height (fst c + fst d, snd c + snd d)"
  shows "isPath g (fst c + fst d, snd c + snd d)"
proof -
  from assms(1) have "\<And>e d'. node width height e \<Longrightarrow> isPath g e \<Longrightarrow> e \<notin> set [] \<Longrightarrow>
         d' \<in> set directions \<Longrightarrow> inside width height (fst e + fst d', snd e + snd d') \<Longrightarrow>
         isPath g (fst e + fst d', snd e + snd d')"
    unfolding carveInv_def by blast
  from this[of c d] assms show ?thesis by simp
qed

lemma row_nodes_path:
  assumes inv: "carveInv width height g []"
  shows "node width height (1 + 2 * int i, 1) \<Longrightarrow> isPath g (1 + 2 * int i, 1)"
proof (induction i)
  case 0
  from inv show ?case by (simp add: carveInv_def)
next
  case (Suc i)
  then have prev: "node width height (1 + 2 * int i, 1)" by (auto simp: node_def inside_def)
  with Suc.IH have p: "isPath g (1 + 2 * int i, 1)" by simp
  have d: "(2, 0) \<in> set directions" by (simp add: directions_def)
  from Suc.prems have "inside width height (fst (1 + 2 * int i, 1::int) + fst (2::int, 0::int),
      snd (1 + 2 * int i, 1::int) + snd (2::int, 0::int))"
    by (simp add: node_def inside_def)
  from carveInv_closed[OF inv prev p d this] show ?case by (simp add: algebra_simps)
qed

lemma odd_pos_int:
  assumes "odd (x::int)" "0 < x"
  shows "\<exists>i::nat. x = 1 + 2 * int i"
proof -
  from assms(1) obtain k where k: "x = 2 * k + 1" by (rule oddE)
  with assms(2) have "0 \<le> k" by simp
  with k have "x = 1 + 2 * int (nat k)" by simp
  then show ?thesis ..
qed

lemma column_nodes_path:
  assumes inv: "carveInv width height g []"
  shows "node width height (x, 1 + 2 * int j) \<Longrightarrow> isPath g (x, 1 + 2 * int j)"
proof (induction j)
  case 0
  then have "odd x" "0 < x" by (simp_all add: node_def inside_def)
  then obtain i where "x = 1 + 2 * int i" using odd_pos_int by blast
  with 0 row_nodes_path[OF inv, of i] show ?case by simp
next
  case (Suc j)
  then have prev: "node width height (x, 1 + 2 * int j)" by (auto simp: node_def inside_def)
  with Suc.IH have p: "isPath g (x, 1 + 2 * int j)" by simp
  have d: "(0, 2) \<in> set directions" by (simp add: directions_def)
  from Suc.prems have "inside width height (fst (x, 1 + 2 * int j) + fst (0::int, 2::int),
      snd (x, 1 + 2 * int j) + snd (0::int, 2::int))"
    by (simp add: node_def inside_def)
  from carveInv_closed[OF inv prev p d this] show ?case by (simp add: algebra_simps)
qed

lemma all_nodes_path:
  assumes "carveInv width height g []" "node width height (x, y)"
  shows "isPath g (x, y)"
proof -
  from assms(2) have "odd y" "0 < y" by (simp_all add: node_def inside_def)
  then obtain j where "y = 1 + 2 * int j" using odd_pos_int by blast
  with assms column_nodes_path[of width height g x j] show ?thesis by simp
qed


lemma cellAt_replicate:
  "cellAt (replicate (nat height) (replicate (nat width) v)) x y =
     (if 0 \<le> x \<and> x < width \<and> 0 \<le> y \<and> y < height then Some v else None)"
  by (auto simp: cellAt_def split: if_splits)

lemma carveInv_start:
  assumes "3 \<le> width" "3 \<le> height"
  shows "carveInv width height
           (setCell (replicate (nat height) (replicate (nat width) 1)) 1 1 0) [(1, 1)]"
proof -
  define g where "g = setCell (replicate (nat height) (replicate (nat width) 1)) 1 1 0"
  have cell: "cellAt g x y =
      (if (x, y) = (1, 1) then Some 0
       else if 0 \<le> x \<and> x < width \<and> 0 \<le> y \<and> y < height then Some 1 else None)" for x y
    using assms by (auto simp: g_def cellAt_setCell cellAt_replicate)
  have path: "isPath g e = (e = (1, 1))" for e
    by (cases e) (auto simp: isPath_def cell)
  have 1: "(cellAt g x y \<noteq> None) = (0 \<le> x \<and> x < width \<and> 0 \<le> y \<and> y < height)" for x y
    using assms by (auto simp: cell)
  have 2: "v = 0 \<or> v = 1" if "cellAt g x y = Some v" for x y v
    using that by (auto simp: cell split: if_splits)
  have 3: "isPath g (1, 1)" by (simp add: path)
  have 4: "node width height e \<and> isPath g e" if "e \<in> set [(1, 1)]" for e
    using that assms by (auto simp: path node_def inside_def)
  have 5: "connected g (1, 1) e" if "isPath g e" for e
    using that connected.here[of g "(1, 1)"] by (simp add: path)
  have 6: "isPath g (fst e + fst d, snd e + snd d)"
    if "isPath g e" "e \<notin> set [(1, 1)]" for e d
    using that by (simp add: path)
  show ?thesis
    unfolding g_def[symmetric] carveInv_def
    using 1 2 3 4 5 6 by blast
qed


text \<open>
  C1. For odd \<open>width\<close> and \<open>height\<close> of at least 5, and whatever the random sorts
  do as long as they permute the directions, \<open>generateMaze\<close> returns \<open>height\<close> rows
  of \<open>width\<close> cells each, the start cell (1, 1) and the exit cell
  (\<open>width - 2\<close>, \<open>height - 2\<close>) are path cells, and a walk of adjacent path cells leads
  from the start to the exit.
\<close>

theorem generateMaze_solvable:
  assumes "odd width" "odd height" "5 \<le> width" "5 \<le> height" "permuting sh"
  shows "length (generateMaze sh width height) = nat height
       \<and> (\<forall>row \<in> set (generateMaze sh width height). length row = nat width)
       \<and> cellAt (generateMaze sh width height) 1 1 = Some 0
       \<and> cellAt (generateMaze sh width height) (width - 2) (height - 2) = Some 0
       \<and> connected (generateMaze sh width height) (1, 1) (width - 2, height - 2)"
proof -
  define m0 where "m0 = setCell (replicate (nat height) (replicate (nat width) 1)) 1 1 0"
  define m1 where "m1 = carve sh width height 0 directions m0 [(1, 1)]"
  have g: "generateMaze sh width height = setCell m1 (width - 2) (height - 2) 0"
    by (simp add: generateMaze_def m0_def m1_def Let_def)
  have "map length (generateMaze sh width height) = replicate (nat height) (nat width)"
    by (simp add: g m1_def m0_def lengths_setCell carve_lengths)
  then have dims: "length (generateMaze sh width height) = nat height"
    "\<forall>row \<in> set (generateMaze sh width height). length row = nat width"
    by (metis length_map length_replicate, metis in_set_replicate list.set_map imageI)
  from assms have "carveInv width height m0 [(1, 1)]"
    unfolding m0_def by (intro carveInv_start) simp_all
  with assms(5) have inv: "carveInv width height m1 []"
    unfolding m1_def by (intro carve_inv) simp_all
  from assms have "node width height (width - 2, height - 2)"
    by (simp add: node_def inside_def)
  with inv have exit: "isPath m1 (width - 2, height - 2)" by (rule all_nodes_path)
  from inv have start: "isPath m1 (1, 1)" by (simp add: carveInv_def)
  from inv exit have "connected m1 (1, 1) (width - 2, height - 2)"
    unfolding carveInv_def by blast
  then have "connected (generateMaze sh width height) (1, 1) (width - 2, height - 2)"
    unfolding g by (rule connected_mono) (rule isPath_setCell)
  moreover from start exit have "isPath (generateMaze sh width height) (1, 1)"
    "isPath (generateMaze sh width height) (width - 2, height - 2)"
    unfolding g by (simp_all add: isPath_setCell)
  ultimately show ?thesis using dims by (simp add: isPath_def)
qed


theorem generateMaze_solvable_witness:
  "odd (5::int) \<and> odd (7::int) \<and> (5::int) \<le> 5 \<and> (5::int) \<le> 7 \<and> permuting (\<lambda>k ds. rev ds)
   \<and> length (generateMaze (\<lambda>k ds. rev ds) 5 7) = 7
   \<and> list_all (\<lambda>row. length row = 5) (generateMaze (\<lambda>k ds. rev ds) 5 7)
   \<and> cellAt (generateMaze (\<lambda>k ds. rev ds) 5 7) 1 1 = Some 0
   \<and> cellAt (generateMaze (\<lambda>k ds. rev ds) 5 7) 3 5 = Some 0
   \<and> connected (generateMaze (\<lambda>k ds. rev ds) 5 7) (1, 1) (3, 5)"
proof -
  have p: "permuting (\<lambda>k ds. rev ds)" by (simp add: permuting_def)
  have o: "odd (5::int)" "odd (7::int)" "(5::int) \<le> 5" "(5::int) \<le> 7" by simp_all
  show ?thesis
    using generateMaze_solvable[OF o p] p by (simp add: list_all_iff)
qed

section \<open>Rooms: finishing, joining and starting rounds\<close>

subsection \<open>Lookups and the frame of a round start\<close>

lemma map_of_update: "map_of (AList.update k v al) = (map_of al)(k \<mapsto> v)"
  by (rule update_conv')

lemma findIndex_Some:
  "findIndex P xs = Some i \<Longrightarrow> i < length xs \<and> P (xs ! i) \<and> (\<forall>j < i. \<not> P (xs ! j))"
proof (induction xs arbitrary: i)
  case Nil
  then show ?case by simp
next
  case (Cons a xs)
  show ?case
  proof (cases "P a")
    case True
    with Cons.prems show ?thesis by simp
  next
    case False
    with Cons.prems obtain k where k: "findIndex P xs = Some k" "i = Suc k" by auto
    from Cons.IH[OF k(1)] False k(2) show ?thesis by (auto simp: less_Suc_eq_0_disj)
  qed
qed

lemma findIndex_update:
  "findIndex P xs = Some i \<Longrightarrow> P v \<Longrightarrow> findIndex P (xs[i := v]) = Some i"
proof (induction xs arbitrary: i)
  case Nil
  then show ?case by simp
next
  case (Cons a xs)
  show ?case
  proof (cases "P a")
    case True
    with Cons.prems show ?thesis by simp
  next
    case False
    with Cons.prems obtain k where k: "findIndex P xs = Some k" "i = Suc k" by auto
    from Cons.IH[OF k(1) Cons.prems(2)] False k(2) show ?thesis by simp
  qed
qed

text \<open>
  C10. \<open>startRound\<close> changes, in the room it starts, only the status, the maze, the
  start time and the players, and in each player only the position, the \<open>finished\<close> flag
  and \<open>finishTime\<close>: putting the old values of those fields back gives the old room and
  the old players. In particular the id, name, score, color and \<open>lastFinishTime\<close> of
  every player are as before, so scores and the finish times of the round before are
  carried into the new round. The other rooms are untouched.
\<close>

theorem startRound_frame:
  assumes "map_of rooms roomCode = Some room"
  shows "\<exists>room'. map_of (fst (startRound sh now roomCode rooms)) roomCode = Some room'
       \<and> room'\<lparr>status := status room, maze := maze room, startTime := startTime room,
                players := players room\<rparr> = room
       \<and> length (players room') = length (players room)
       \<and> (\<forall>i < length (players room).
            (players room' ! i)\<lparr>posX := posX (players room ! i), posY := posY (players room ! i),
                finished := finished (players room ! i),
                finishTime := finishTime (players room ! i)\<rparr> = players room ! i
            \<and> pid (players room' ! i) = pid (players room ! i)
            \<and> name (players room' ! i) = name (players room ! i)
            \<and> score (players room' ! i) = score (players room ! i)
            \<and> color (players room' ! i) = color (players room ! i)
            \<and> lastFinishTime (players room' ! i) = lastFinishTime (players room ! i))
       \<and> (\<forall>code. code \<noteq> roomCode \<longrightarrow>
            map_of (fst (startRound sh now roomCode rooms)) code = map_of rooms code)"
  using assms by (simp add: startRound_def Let_def map_of_update)


lemma playerWon_noop:
  assumes "map_of rooms roomCode = Some room"
    and "status room \<noteq> playing \<or>
         (\<exists>i. findIndex (\<lambda>p. pid p = socketId) (players room) = Some i
              \<and> finished (players room ! i) = Some True)"
  shows "playerWon now socketId roomCode rooms = (rooms, [])"
  using assms by (auto simp: playerWon_def)

lemma playerWon_unknown_room:
  "map_of rooms roomCode = None \<Longrightarrow> playerWon now socketId roomCode rooms = (rooms, [])"
  by (simp add: playerWon_def)

lemma playerWon_after:
  "playerWon now' socketId roomCode (fst (playerWon now socketId roomCode rooms))
     = (fst (playerWon now socketId roomCode rooms), [])"
proof (cases "map_of rooms roomCode")
  case None
  then show ?thesis by (simp add: playerWon_def)
next
  case (Some room)
  show ?thesis
  proof (cases "status room \<noteq> playing")
    case True
    with Some show ?thesis by (simp add: playerWon_def)
  next
    case False
    then have st: "status room = playing" by simp
    show ?thesis
    proof (cases "findIndex (\<lambda>p. pid p = socketId) (players room)")
      case None
      with Some show ?thesis by (simp add: playerWon_def)
    next
      case fi: (Some i)
      show ?thesis
      proof (cases "finished (players room ! i) = Some True")
        case True
        with Some fi show ?thesis by (simp add: playerWon_def)
      next
        case False
        define player where "player = (players room ! i)\<lparr>finished := Some True,
            lastFinishTime := elapsed now (startTime room)\<rparr>"
        define ps where "ps = (players room)[i := player]"
        have idp: "pid player = socketId" using findIndex_Some[OF fi] by (simp add: player_def)
        have fi': "findIndex (\<lambda>p. pid p = socketId) ps = Some i"
          unfolding ps_def using fi idp by (rule findIndex_update)
        have i: "i < length (players room)" using findIndex_Some[OF fi] by simp
        have fin: "finished (ps ! i) = Some True" using i by (simp add: ps_def player_def)
        show ?thesis
        proof (cases "list_all (\<lambda>p. finished p = Some True) ps")
          case True
          obtain room' where r: "fst (playerWon now socketId roomCode rooms) = AList.update roomCode room' rooms"
            and s: "status room' \<noteq> playing"
            using Some st fi False True
            by (auto simp: playerWon_def Let_def ps_def player_def)
          show ?thesis unfolding r
            by (rule playerWon_noop[of _ _ room']) (simp_all add: map_of_update s)
        next
          case nall: False
          have r: "fst (playerWon now socketId roomCode rooms)
                    = AList.update roomCode (room\<lparr>players := ps\<rparr>) rooms"
            using Some st fi False nall
            by (simp add: playerWon_def Let_def ps_def player_def)
          show ?thesis unfolding r
            by (rule playerWon_noop[of _ _ "room\<lparr>players := ps\<rparr>"])
               (simp_all add: map_of_update fi' fin)
        qed
      qed
    qed
  qed
qed

text \<open>
  C4. \<open>playerWon\<close> changes nothing and sends nothing when the room is not playing, or
  when the player it finds for the socket is already finished; and whatever a first call
  did, a second call for the same socket and room changes nothing and sends nothing.
\<close>

theorem playerWon_idempotent:
  "(map_of rooms roomCode = Some room \<longrightarrow>
      (status room \<noteq> playing \<or>
         (\<exists>i. findIndex (\<lambda>p. pid p = socketId) (players room) = Some i
              \<and> finished (players room ! i) = Some True)) \<longrightarrow>
      playerWon now socketId roomCode rooms = (rooms, []))
   \<and> playerWon now' socketId roomCode (fst (playerWon now socketId roomCode rooms))
        = (fst (playerWon now socketId roomCode rooms), [])"
  using playerWon_noop[of rooms roomCode room socketId now] playerWon_after by blast


text \<open>
  C5, in the form that holds. When the player count of a room equals \<open>maxPlayers\<close>,
  \<open>joinRoom\<close> leaves every room as it is and sends one error to the joining socket:
  the full-room error when the room is waiting, and the error of a game in progress in
  every other status, because the status is tested before the player count.
\<close>

theorem joinRoom_full:
  assumes "map_of rooms roomCode = Some room"
    and "maxPlayers room = Some (int (length (players room)))"
  shows "joinRoom sh now socketId playerName roomCode rooms =
           (rooms, [(ToSocket socketId,
                     ErrorMsg (if status room = waiting then ''Room is full''
                               else ''Game already in progress''))])"
  using assms by (simp add: joinRoom_def numGe_def)

text \<open>
  C6. When \<open>joinRoom\<close> admits a player to a waiting room that lacked exactly one player,
  the room has \<open>maxPlayers\<close> players afterwards and the round has started within the same
  call: the status is \<open>playing\<close>, the maze is the one just generated, the start time is
  the time of the call, every player stands on (1, 1), and the room is sent the join
  followed by the game start.
\<close>

theorem joinRoom_autostart:
  assumes "map_of rooms roomCode = Some room" and "status room = waiting"
    and "maxPlayers room = Some (int (length (players room)) + 1)"
  shows "\<exists>room'. map_of (fst (joinRoom sh now socketId playerName roomCode rooms)) roomCode = Some room'
       \<and> length (players room') = length (players room) + 1
       \<and> maxPlayers room' = Some (int (length (players room')))
       \<and> status room' = playing
       \<and> maze room' = Some (generateMaze sh 21 21)
       \<and> startTime room' = Some now
       \<and> (\<forall>p \<in> set (players room'). posX p = Some 1 \<and> posY p = Some 1)
       \<and> map fst (snd (joinRoom sh now socketId playerName roomCode rooms))
           = [ToRoom roomCode, ToRoom roomCode]
       \<and> (\<exists>ps. map snd (snd (joinRoom sh now socketId playerName roomCode rooms))
             = [PlayerJoined ps roomCode (maxPlayers room),
                GameStart (generateMaze sh 21 21) (currentRound room) (players room') now roomCode])"
  using assms
  by (simp add: joinRoom_def numGe_def numEq_def Let_def startRound_def map_of_update)

subsection \<open>Room codes\<close>

lemma charAt_random:
  fixes r :: rat
  assumes "0 \<le> r" "r < 1"
  shows "\<exists>c \<in> set characters. charAt characters \<lfloor>r * of_nat (length characters)\<rfloor> = [c]"
proof -
  define k where "k = \<lfloor>r * 32\<rfloor>"
  have len: "length characters = 32" by (simp add: characters_def)
  from assms have "0 \<le> r * 32" "r * 32 < 32" by simp_all
  then have k: "0 \<le> k" "k < 32" unfolding k_def by (simp_all add: floor_less_iff)
  then have "nat k < length characters" unfolding len by linarith
  then have "characters ! nat k \<in> set characters" by (rule nth_mem)
  moreover from k have "charAt characters k = [characters ! nat k]" by (simp add: charAt_def len)
  ultimately show ?thesis by (simp add: len k_def)
qed

lemma randomCode_shape:
  assumes "unitInterval rnd"
  shows "length (randomCode rnd n) = 4 \<and> set (randomCode rnd n) \<subseteq> set characters"
proof -
  have "\<exists>c \<in> set characters. charAt characters \<lfloor>rnd (n + i) * of_nat (length characters)\<rfloor> = [c]" for i
    using assms charAt_random[of "rnd (n + i)"] by (simp add: unitInterval_def)
  from this[of 0] this[of 1] this[of 2] this[of 3] 
  obtain a b c d where "a \<in> set characters" "b \<in> set characters" "c \<in> set characters" "d \<in> set characters"
    "charAt characters \<lfloor>rnd (n + 0) * of_nat (length characters)\<rfloor> = [a]"
    "charAt characters \<lfloor>rnd (n + 1) * of_nat (length characters)\<rfloor> = [b]"
    "charAt characters \<lfloor>rnd (n + 2) * of_nat (length characters)\<rfloor> = [c]"
    "charAt characters \<lfloor>rnd (n + 3) * of_nat (length characters)\<rfloor> = [d]"
    by blast
  moreover have "[0..<4] = [0, 1, 2, 3]" by (simp add: upt_rec)
  ultimately show ?thesis by (simp add: randomCode_def)
qed

lemma generateRoomCode_result:
  assumes "generateRoomCode rnd n rooms = Some c"
  shows "\<exists>j. c = randomCode rnd (n + 4 * j) \<and> map_of rooms c = None"
  using assms
proof (induction rule: generateRoomCode.raw_induct[rotated 1, consumes 1])
  case (1 f rnd n rooms c)
  show ?case
  proof (cases "map_of rooms (randomCode rnd n) = None")
    case True
    with 1(2) have "c = randomCode rnd n" by (simp add: Let_def)
    with True show ?thesis by (intro exI[of _ 0]) simp
  next
    case False
    with 1(2) have "f rnd (n + 4) rooms = Some c" by (simp add: Let_def)
    from 1(1)[OF this] obtain j where "c = randomCode rnd (n + 4 + 4 * j)" "map_of rooms c = None"
      by blast
    then have "c = randomCode rnd (n + 4 * Suc j) \<and> map_of rooms c = None" by (simp add: add.assoc)
    then show ?thesis by blast
  qed
qed

lemma generateRoomCode_returns:
  "map_of rooms (randomCode rnd (n + 4 * j)) = None \<Longrightarrow> generateRoomCode rnd n rooms \<noteq> None"
proof (induction j arbitrary: n)
  case 0
  then show ?case by (subst generateRoomCode.simps) (simp add: Let_def)
next
  case (Suc j)
  from Suc.prems have "map_of rooms (randomCode rnd (n + 4 + 4 * j)) = None" by (simp add: add.assoc)
  from Suc.IH[OF this] show ?case by (subst generateRoomCode.simps) (simp add: Let_def)
qed

lemma alphabet:
  "length characters = 32 \<and> distinct characters \<and> set characters \<inter> set ''IO01'' = {}"
  by (simp add: characters_def)

text \<open>
  C9. With random numbers from the unit interval, \<open>createRoom\<close> returns exactly when
  one of the codes the generator draws in turn is free; the code of the room it then adds
  has 4 characters, all from \<open>characters\<close>, and is the code of no room that was in the
  table; the other rooms stay as they were. \<open>characters\<close> has 32 different characters,
  none of them I, O, 0 or 1.
\<close>

theorem createRoom_code:
  assumes "unitInterval rnd"
  shows "((createRoom rnd socketId playerName maxPlayersArg totalRoundsArg rooms \<noteq> None)
           = (\<exists>j. map_of rooms (randomCode rnd (4 * j)) = None))
       \<and> (\<forall>rooms' sent.
            createRoom rnd socketId playerName maxPlayersArg totalRoundsArg rooms = Some (rooms', sent) \<longrightarrow>
            (\<exists>roomCode room. length roomCode = 4 \<and> set roomCode \<subseteq> set characters
               \<and> map_of rooms roomCode = None
               \<and> map_of rooms' roomCode = Some room \<and> rid room = roomCode
               \<and> (\<forall>code. code \<noteq> roomCode \<longrightarrow> map_of rooms' code = map_of rooms code)
               \<and> sent = [(ToSocket socketId, RoomCreated roomCode True room)]))
       \<and> length characters = 32 \<and> distinct characters \<and> set characters \<inter> set ''IO01'' = {}"
proof (intro conjI allI impI)
  show "(createRoom rnd socketId playerName maxPlayersArg totalRoundsArg rooms \<noteq> None)
           = (\<exists>j. map_of rooms (randomCode rnd (4 * j)) = None)"
  proof
    assume "createRoom rnd socketId playerName maxPlayersArg totalRoundsArg rooms \<noteq> None"
    then obtain c where "generateRoomCode rnd 0 rooms = Some c"
      by (auto simp: createRoom_def split: option.splits)
    from generateRoomCode_result[OF this] show "\<exists>j. map_of rooms (randomCode rnd (4 * j)) = None"
      by auto
  next
    assume "\<exists>j. map_of rooms (randomCode rnd (4 * j)) = None"
    then obtain j where "map_of rooms (randomCode rnd (0 + 4 * j)) = None" by auto
    from generateRoomCode_returns[OF this]
    show "createRoom rnd socketId playerName maxPlayersArg totalRoundsArg rooms \<noteq> None"
      by (auto simp: createRoom_def Let_def split: option.splits)
  qed
next
  fix rooms' sent
  assume cr: "createRoom rnd socketId playerName maxPlayersArg totalRoundsArg rooms = Some (rooms', sent)"
  then obtain c where c: "generateRoomCode rnd 0 rooms = Some c"
    by (auto simp: createRoom_def split: option.splits)
  from generateRoomCode_result[OF c] obtain j where j: "c = randomCode rnd (0 + 4 * j)"
    and fresh: "map_of rooms c = None" by blast
  from j randomCode_shape[OF assms, of "0 + 4 * j"] have "length c = 4" "set c \<subseteq> set characters"
    by simp_all
  with cr c fresh show "\<exists>roomCode room. length roomCode = 4 \<and> set roomCode \<subseteq> set characters
            \<and> map_of rooms roomCode = None
            \<and> map_of rooms' roomCode = Some room \<and> rid room = roomCode
            \<and> (\<forall>code. code \<noteq> roomCode \<longrightarrow> map_of rooms' code = map_of rooms code)
            \<and> sent = [(ToSocket socketId, RoomCreated roomCode True room)]"
    by (auto simp: createRoom_def Let_def map_of_update intro!: exI[of _ c])
next
  show "length characters = 32" "distinct characters" "set characters \<inter> set ''IO01'' = {}"
    using alphabet by blast+
qed

subsection \<open>The stable sort picks the first minimum\<close>

lemma insertCmp_hd:
  "hd (insertCmp cmp a bs) = (if bs \<noteq> [] \<and> positive (cmp a (hd bs)) then hd bs else a)"
  by (cases bs) simp_all

lemma insertCmp_set: "set (insertCmp cmp a bs) = insert a (set bs)"
  by (induction bs) auto

lemma sortCmp_set: "set (sortCmp cmp xs) = set xs"
  by (induction xs) (simp_all add: sortCmp_def insertCmp_set)

lemma sortCmp_Cons: "sortCmp cmp (x # xs) = insertCmp cmp x (sortCmp cmp xs)"
  by (simp add: sortCmp_def)

lemma sortCmp_Nil_iff: "sortCmp cmp xs = [] \<longleftrightarrow> xs = []"
  using sortCmp_set[of cmp xs] by (metis set_empty)

lemma sortCmp_hd_first_min:
  fixes key :: "nat \<Rightarrow> rat"
  assumes "xs \<noteq> []" "sorted_wrt (<) xs"
    and "\<And>i j. i \<in> set xs \<Longrightarrow> j \<in> set xs \<Longrightarrow> positive (cmp i j) = (key i > key j)"
  shows "hd (sortCmp cmp xs) \<in> set xs
       \<and> (\<forall>j \<in> set xs. key (hd (sortCmp cmp xs)) \<le> key j)
       \<and> (\<forall>j \<in> set xs. j < hd (sortCmp cmp xs) \<longrightarrow> key (hd (sortCmp cmp xs)) < key j)"
  using assms
proof (induction xs)
  case Nil
  then show ?case by simp
next
  case (Cons x xs)
  show ?case
  proof (cases "xs = []")
    case True
    then show ?thesis by (simp add: sortCmp_def)
  next
    case False
    define h where "h = hd (sortCmp cmp xs)"
    from Cons.prems have sorted: "sorted_wrt (<) xs" and above: "\<forall>j \<in> set xs. x < j" by auto
    have cmp: "\<And>i j. i \<in> set xs \<Longrightarrow> j \<in> set xs \<Longrightarrow> positive (cmp i j) = (key i > key j)"
      using Cons.prems(3) by simp
    from Cons.IH[OF False sorted cmp] have h: "h \<in> set xs" "\<forall>j \<in> set xs. key h \<le> key j"
      "\<forall>j \<in> set xs. j < h \<longrightarrow> key h < key j" by (simp_all add: h_def)
    have ne: "sortCmp cmp xs \<noteq> []" using False by (simp add: sortCmp_Nil_iff)
    have pos: "positive (cmp x h) = (key x > key h)" using Cons.prems(3)[of x h] h(1) by simp
    have hd: "hd (sortCmp cmp (x # xs)) = (if key x > key h then h else x)"
      using ne pos by (simp add: sortCmp_Cons insertCmp_hd h_def)
    show ?thesis
    proof (cases "key x > key h")
      case True
      with hd h above show ?thesis by (auto simp: less_imp_le)
    next
      case False
      with hd h above show ?thesis by (fastforce simp: not_less)
    qed
  qed
qed

lemma roundWinnerIndex_first_min:
  assumes "ps \<noteq> []" "\<forall>j < length ps. lastFinishTime (ps ! j) = Some (t j)"
  shows "roundWinnerIndex ps < length ps
       \<and> (\<forall>j < length ps. t (roundWinnerIndex ps) \<le> t j)
       \<and> (\<forall>j < roundWinnerIndex ps. t (roundWinnerIndex ps) < t j)"
proof -
  have ne: "[0..<length ps] \<noteq> []" using assms(1) by simp
  have srt: "sorted_wrt (<) [0..<length ps]" by (simp add: sorted_wrt_upt)
  have cmp: "positive (byFinishTime (ps ! i) (ps ! j)) = (t i > t j)"
    if "i \<in> set [0..<length ps]" "j \<in> set [0..<length ps]" for i j
    using that assms(2) by (simp add: byFinishTime_def positive_def)
  from sortCmp_hd_first_min[of "[0..<length ps]" "\<lambda>i j. byFinishTime (ps ! i) (ps ! j)" t, OF ne srt cmp]
  have w: "roundWinnerIndex ps < length ps" "\<forall>j < length ps. t (roundWinnerIndex ps) \<le> t j"
    "\<forall>j < length ps. j < roundWinnerIndex ps \<longrightarrow> t (roundWinnerIndex ps) < t j"
    by (simp_all add: roundWinnerIndex_def)
  then show ?thesis by (meson less_trans)
qed

subsection \<open>The end of a round\<close>

lemma winsNeeded_real: "winsNeeded (Some t) = Some \<lceil>real_of_int t / 2\<rceil>"
proof -
  have "\<lceil>(of_int t :: rat) / 2\<rceil> = \<lceil>real_of_int t / 2\<rceil>"
    using ceiling_divide_eq_div[where 'a = rat, of t 2] ceiling_divide_eq_div[where 'a = real, of t 2]
    by simp
  then show ?thesis by (simp add: winsNeeded_def)
qed

lemma playerWon_round_end:
  assumes "map_of rooms roomCode = Some room" and "status room = playing"
    and "findIndex (\<lambda>p. pid p = socketId) (players room) = Some i"
    and "finished (players room ! i) \<noteq> Some True"
    and "\<forall>j < length (players room). j \<noteq> i \<longrightarrow> finished (players room ! j) = Some True"
    and ps: "ps = (players room)[i := (players room ! i)\<lparr>finished := Some True,
                    lastFinishTime := elapsed now (startTime room)\<rparr>]"
    and w: "w = roundWinnerIndex ps"
    and flag: "flag = (numGe (score (ps ! w) + 1) (winsNeeded (totalRounds room))
                      \<or> numEq (currentRound room) (totalRounds room))"
  shows "\<exists>room'. playerWon now socketId roomCode rooms =
           (AList.update roomCode room' rooms,
            [(ToRoom roomCode,
              RoundResult ((ps ! w)\<lparr>score := score (ps ! w) + 1\<rparr>) (players room')
                (currentRound room) (totalRounds room) flag)])
         \<and> players room' = ps[w := (ps ! w)\<lparr>score := score (ps ! w) + 1\<rparr>]
         \<and> status room' = (if flag then game_over else round_over)
         \<and> room'\<lparr>players := players room, status := status room\<rparr> = room"
proof -
  from assms(3) have i: "i < length (players room)" using findIndex_Some by blast
  have "list_all (\<lambda>p. finished p = Some True) ps"
    unfolding list_all_length ps using assms(5) i by (auto simp: nth_list_update)
  with assms(1-4) show ?thesis
    unfolding playerWon_def Let_def ps[symmetric] w[symmetric] flag
    by (fastforce simp: ps[symmetric] w[symmetric])
qed


text \<open>
  C3. When \<open>playerWon\<close> ends the round (the last unfinished player finishes), the flag
  it sends with the round result is true exactly when the score of the winner, after its
  increment, is at least the ceiling of half of \<open>totalRounds\<close>, or \<open>currentRound\<close> equals
  \<open>totalRounds\<close>. The room is in \<open>game_over\<close> exactly when the flag is true, and in
  \<open>round_over\<close> otherwise. So with 5 rounds a winner whose score reaches 3 ends the
  match in any round, and the last round always ends it.
\<close>

theorem playerWon_match_winner:
  assumes "map_of rooms roomCode = Some room" and "status room = playing"
    and "findIndex (\<lambda>p. pid p = socketId) (players room) = Some i"
    and "finished (players room ! i) \<noteq> Some True"
    and "\<forall>j < length (players room). j \<noteq> i \<longrightarrow> finished (players room ! j) = Some True"
  shows "\<exists>winner flag room'.
       snd (playerWon now socketId roomCode rooms) =
         [(ToRoom roomCode,
           RoundResult winner (players room') (currentRound room) (totalRounds room) flag)]
     \<and> map_of (fst (playerWon now socketId roomCode rooms)) roomCode = Some room'
     \<and> winner \<in> set (players room')
     \<and> flag = (case totalRounds room of
                 None \<Rightarrow> False
               | Some t \<Rightarrow> score winner \<ge> \<lceil>real_of_int t / 2\<rceil> \<or> currentRound room = t)
     \<and> (status room' = game_over) = flag
     \<and> (status room' = round_over) = (\<not> flag)
     \<and> (totalRounds room = Some 5 \<and> score winner \<ge> 3 \<longrightarrow> status room' = game_over)
     \<and> (totalRounds room = Some (currentRound room) \<longrightarrow> status room' = game_over)"
proof -
  define ps where "ps = (players room)[i := (players room ! i)\<lparr>finished := Some True,
                    lastFinishTime := elapsed now (startTime room)\<rparr>]"
  define w where "w = roundWinnerIndex ps"
  define winner where "winner = (ps ! w)\<lparr>score := score (ps ! w) + 1\<rparr>"
  define flag where "flag = (numGe (score (ps ! w) + 1) (winsNeeded (totalRounds room))
                      \<or> numEq (currentRound room) (totalRounds room))"
  from assms(3) have i: "i < length (players room)" using findIndex_Some by blast
  then have ne: "ps \<noteq> []" by (auto simp: ps_def)
  have "w \<in> set (sortCmp (\<lambda>i j. byFinishTime (ps ! i) (ps ! j)) [0..<length ps])"
    unfolding w_def roundWinnerIndex_def using ne by (intro hd_in_set) (simp add: sortCmp_Nil_iff)
  then have wl: "w < length ps" by (simp add: sortCmp_set)
  from playerWon_round_end[OF assms ps_def w_def flag_def]
  obtain room' where r: "playerWon now socketId roomCode rooms =
           (AList.update roomCode room' rooms,
            [(ToRoom roomCode,
              RoundResult winner (players room') (currentRound room) (totalRounds room) flag)])"
    and p: "players room' = ps[w := winner]"
    and s: "status room' = (if flag then game_over else round_over)"
    unfolding winner_def by blast
  have f: "flag = (case totalRounds room of
                 None \<Rightarrow> False
               | Some t \<Rightarrow> score winner \<ge> \<lceil>real_of_int t / 2\<rceil> \<or> currentRound room = t)"
    by (cases "totalRounds room")
       (auto simp: flag_def winner_def numGe_def numEq_def winsNeeded_def winsNeeded_real[unfolded winsNeeded_def, simplified])
  have in_set: "winner \<in> set (players room')" unfolding p using wl by (simp add: set_update_memI)
  have five: "totalRounds room = Some 5 \<and> score winner \<ge> 3 \<longrightarrow> status room' = game_over"
    unfolding s f by auto
  have last: "totalRounds room = Some (currentRound room) \<longrightarrow> status room' = game_over"
    unfolding s f by auto
  show ?thesis
    apply (rule exI[of _ winner], rule exI[of _ flag], rule exI[of _ room'])
    using r in_set f s five last by (simp add: map_of_update)
qed

lemma playerWon_first_minimum:
  assumes "map_of rooms roomCode = Some room" and "status room = playing"
    and "findIndex (\<lambda>p. pid p = socketId) (players room) = Some i"
    and "finished (players room ! i) \<noteq> Some True"
    and "startTime room = Some t0"
    and "\<forall>j < length (players room). j \<noteq> i \<longrightarrow>
           finished (players room ! j) = Some True \<and> lastFinishTime (players room ! j) \<noteq> None"
  shows "\<exists>w t room' flag.
       map_of (fst (playerWon now socketId roomCode rooms)) roomCode = Some room'
     \<and> length (players room') = length (players room)
     \<and> (\<forall>j < length (players room).
           finished (players room' ! j) = Some True \<and> lastFinishTime (players room' ! j) = Some (t j))
     \<and> t i = of_int (now - t0) / 1000
     \<and> (\<forall>j < length (players room). j \<noteq> i \<longrightarrow> lastFinishTime (players room ! j) = Some (t j))
     \<and> w < length (players room)
     \<and> (\<forall>j < length (players room). t w \<le> t j)
     \<and> (\<forall>j < w. t w < t j)
     \<and> score (players room' ! w) = score (players room ! w) + 1
     \<and> (\<forall>j < length (players room). j \<noteq> w \<longrightarrow> score (players room' ! j) = score (players room ! j))
     \<and> snd (playerWon now socketId roomCode rooms) =
         [(ToRoom roomCode,
           RoundResult (players room' ! w) (players room') (currentRound room) (totalRounds room) flag)]"
proof -
  define ps where "ps = (players room)[i := (players room ! i)\<lparr>finished := Some True,
                    lastFinishTime := elapsed now (startTime room)\<rparr>]"
  define w where "w = roundWinnerIndex ps"
  define flag where "flag = (numGe (score (ps ! w) + 1) (winsNeeded (totalRounds room))
                      \<or> numEq (currentRound room) (totalRounds room))"
  define t where "t = (\<lambda>j. the (lastFinishTime (ps ! j)))"
  from assms(3) have i: "i < length (players room)" using findIndex_Some by blast
  then have ne: "ps \<noteq> []" by (auto simp: ps_def)
  have len: "length ps = length (players room)" by (simp add: ps_def)
  have ti: "lastFinishTime (ps ! i) = Some (of_int (now - t0) / 1000)"
    using i assms(5) by (simp add: ps_def elapsed_def)
  have tj: "lastFinishTime (ps ! j) = lastFinishTime (players room ! j)
            \<and> finished (ps ! j) = Some True \<and> score (ps ! j) = score (players room ! j)"
    if "j < length (players room)" "j \<noteq> i" for j
    using that assms(6) by (simp add: ps_def)
  have fin: "finished (ps ! j) = Some True" if "j < length (players room)" for j
    using that tj[of j] i by (cases "j = i") (simp_all add: ps_def)
  have sc: "score (ps ! j) = score (players room ! j)" if "j < length (players room)" for j
    using that tj[of j] i by (cases "j = i") (simp_all add: ps_def)
  have times: "\<forall>j < length ps. lastFinishTime (ps ! j) = Some (t j)"
  proof (intro allI impI)
    fix j assume "j < length ps"
    then have j: "j < length (players room)" by (simp add: len)
    show "lastFinishTime (ps ! j) = Some (t j)"
    proof (cases "j = i")
      case True
      with ti show ?thesis by (simp add: t_def)
    next
      case False
      with tj[OF j] assms(6) j show ?thesis by (auto simp: t_def)
    qed
  qed
  from roundWinnerIndex_first_min[OF ne times]
  have wl: "w < length ps" and wmin: "\<forall>j < length ps. t w \<le> t j" and wfirst: "\<forall>j < w. t w < t j"
    by (simp_all add: w_def)
  have others: "\<forall>j < length (players room). j \<noteq> i \<longrightarrow> finished (players room ! j) = Some True"
    using assms(6) by blast
  from playerWon_round_end[OF assms(1-4) others ps_def w_def flag_def]
  obtain room' where r: "playerWon now socketId roomCode rooms =
           (AList.update roomCode room' rooms,
            [(ToRoom roomCode,
              RoundResult ((ps ! w)\<lparr>score := score (ps ! w) + 1\<rparr>) (players room')
                (currentRound room) (totalRounds room) flag)])"
    and p: "players room' = ps[w := (ps ! w)\<lparr>score := score (ps ! w) + 1\<rparr>]"
    by blast
  have a: "map_of (fst (playerWon now socketId roomCode rooms)) roomCode = Some room'"
    by (simp add: r map_of_update)
  have b: "length (players room') = length (players room)" by (simp add: p len)
  have c: "\<forall>j < length (players room).
           finished (players room' ! j) = Some True \<and> lastFinishTime (players room' ! j) = Some (t j)"
    using times fin len wl by (auto simp: p nth_list_update)
  have d: "t i = of_int (now - t0) / 1000" using ti by (simp add: t_def)
  have e: "\<forall>j < length (players room). j \<noteq> i \<longrightarrow> lastFinishTime (players room ! j) = Some (t j)"
    using times tj len by auto
  have f: "score (players room' ! w) = score (players room ! w) + 1"
    using wl sc[of w] len by (simp add: p)
  have g: "\<forall>j < length (players room). j \<noteq> w \<longrightarrow> score (players room' ! j) = score (players room ! j)"
    using sc wl len by (simp add: p nth_list_update)
  have h: "snd (playerWon now socketId roomCode rooms) =
         [(ToRoom roomCode,
           RoundResult (players room' ! w) (players room') (currentRound room) (totalRounds room) flag)]"
    using wl by (simp add: r p)
  show ?thesis
    apply (rule exI[of _ w], rule exI[of _ t], rule exI[of _ room'], rule exI[of _ flag])
    using a b c d e wl wmin wfirst f g h len by simp
qed

subsection \<open>Every finished player has a time\<close>

lemma timed_update: "timed rooms \<Longrightarrow> timedRoom room \<Longrightarrow> timed (AList.update code room rooms)"
  unfolding timed_def by (auto simp: map_of_update)

lemma timed_delete: "timed rooms \<Longrightarrow> timed (AList.delete code rooms)"
  unfolding timed_def by (auto simp: delete_conv' split: if_splits)

lemma timed_room: "timed rooms \<Longrightarrow> map_of rooms code = Some room \<Longrightarrow> timedRoom room"
  unfolding timed_def by blast

lemma startRound_timed: "timed rooms \<Longrightarrow> timed (fst (startRound sh now code rooms))"
  by (auto simp: startRound_def Let_def timedRoom_def split: option.splits intro!: timed_update)

lemma createRoom_timed:
  "timed rooms \<Longrightarrow> createRoom rnd socketId playerName mp tr rooms = Some (rooms', sent) \<Longrightarrow> timed rooms'"
  by (auto simp: createRoom_def Let_def timedRoom_def split: option.splits intro!: timed_update)

lemma joinRoom_timed:
  assumes "timed rooms"
  shows "timed (fst (joinRoom sh now socketId playerName code rooms))"
proof (cases "map_of rooms code")
  case None
  with assms show ?thesis by (simp add: joinRoom_def)
next
  case (Some room)
  show ?thesis
  proof (cases "status room \<noteq> waiting \<or> numGe (int (length (players room))) (maxPlayers room)")
    case True
    with Some assms show ?thesis by (auto simp: joinRoom_def)
  next
    case False
    define newPlayer where "newPlayer = \<lparr>pid = socketId, name = playerName, score = 0,
        color = colors ! (length (players room) mod length colors),
        posX = None, posY = None, finished = None, finishTime = None, lastFinishTime = None\<rparr>"
    define rooms1 where "rooms1 = AList.update code (room\<lparr>players := players room @ [newPlayer]\<rparr>) rooms"
    from timed_room[OF assms Some] False
    have "timedRoom (room\<lparr>players := players room @ [newPlayer]\<rparr>)"
      by (auto simp: timedRoom_def newPlayer_def)
    with assms have t1: "timed rooms1" unfolding rooms1_def by (rule timed_update)
    have "fst (joinRoom sh now socketId playerName code rooms) = rooms1
        \<or> fst (joinRoom sh now socketId playerName code rooms) = fst (startRound sh now code rooms1)"
      using Some False
      by (auto simp: joinRoom_def Let_def rooms1_def newPlayer_def split: prod.splits)
    with t1 startRound_timed[OF t1] show ?thesis by auto
  qed
qed

lemma playerMove_timed:
  assumes "timed rooms"
  shows "timed (fst (playerMove socketId code position rooms))"
proof (cases "map_of rooms code")
  case None
  with assms show ?thesis by (simp add: playerMove_def)
next
  case (Some room)
  from timed_room[OF assms Some]
  have "timedRoom (room\<lparr>players := (players room)[i := (players room ! i)\<lparr>posX := a, posY := b\<rparr>]\<rparr>)"
    if "i < length (players room)" for i a b
    using that by (auto simp: timedRoom_def set_conv_nth nth_list_update)
  with assms Some show ?thesis
    by (auto simp: playerMove_def Let_def split: option.splits
        intro!: timed_update dest: findIndex_Some)
qed

lemma playerWon_timed:
  assumes "timed rooms"
  shows "timed (fst (playerWon now socketId code rooms))"
proof (cases "map_of rooms code")
  case None
  with assms show ?thesis by (simp add: playerWon_def)
next
  case (Some room)
  note tr = timed_room[OF assms Some]
  show ?thesis
  proof (cases "status room = playing")
    case False
    with Some assms show ?thesis by (simp add: playerWon_def)
  next
    case True
    with tr obtain t0 where t0: "startTime room = Some t0" by (auto simp: timedRoom_def)
    show ?thesis
    proof (cases "findIndex (\<lambda>p. pid p = socketId) (players room)")
      case None
      with Some True assms show ?thesis by (simp add: playerWon_def)
    next
      case fi: (Some i)
      define ps where "ps = (players room)[i := (players room ! i)\<lparr>finished := Some True,
                    lastFinishTime := elapsed now (startTime room)\<rparr>]"
      have ps: "\<forall>p \<in> set ps. finished p = Some True \<longrightarrow> lastFinishTime p \<noteq> None"
      proof
        fix p assume "p \<in> set ps"
        then have "p \<in> insert ((players room ! i)\<lparr>finished := Some True,
                    lastFinishTime := elapsed now (startTime room)\<rparr>) (set (players room))"
          unfolding ps_def using set_update_subset_insert by fastforce
        moreover from t0 have "elapsed now (startTime room) \<noteq> None" by (simp add: elapsed_def)
        ultimately show "finished p = Some True \<longrightarrow> lastFinishTime p \<noteq> None"
          using tr by (auto simp: timedRoom_def)
      qed
      have ps': "\<forall>p \<in> set (ps[w := (ps ! w)\<lparr>score := s\<rparr>]). finished p = Some True \<longrightarrow> lastFinishTime p \<noteq> None"
        if "w < length ps" for w s
      proof
        fix p assume "p \<in> set (ps[w := (ps ! w)\<lparr>score := s\<rparr>])"
        then have "p \<in> insert ((ps ! w)\<lparr>score := s\<rparr>) (set ps)"
          using set_update_subset_insert by fastforce
        with ps that show "finished p = Some True \<longrightarrow> lastFinishTime p \<noteq> None"
          by (auto simp: nth_mem)
      qed
      have ps'': "\<forall>p \<in> set (ps[w := (ps ! w)\<lparr>score := s\<rparr>]). finished p = Some True \<longrightarrow> lastFinishTime p \<noteq> None"
        for w s
        using ps' ps by (cases "w < length ps") (auto simp: list_update_beyond not_less)
      from fi have i: "i < length (players room)" using findIndex_Some by blast
      show ?thesis
      proof (cases "finished (players room ! i) = Some True")
        case True
        with Some \<open>status room = playing\<close> fi assms show ?thesis by (simp add: playerWon_def)
      next
        case nf: False
        show ?thesis
        proof (cases "list_all (\<lambda>p. finished p = Some True) ps")
          case False
          with Some \<open>status room = playing\<close> fi nf
          have "fst (playerWon now socketId code rooms) = AList.update code (room\<lparr>players := ps\<rparr>) rooms"
            by (simp add: playerWon_def Let_def ps_def)
          moreover have "timedRoom (room\<lparr>players := ps\<rparr>)"
            using ps t0 by (simp add: timedRoom_def)
          ultimately show ?thesis using assms by (simp add: timed_update)
        next
          case all: True
          have others: "\<forall>j < length (players room). j \<noteq> i \<longrightarrow> finished (players room ! j) = Some True"
          proof (intro allI impI)
            fix j assume "j < length (players room)" "j \<noteq> i"
            then have "j < length ps" "ps ! j = players room ! j" by (simp_all add: ps_def)
            moreover from all \<open>j < length ps\<close> have "finished (ps ! j) = Some True"
              unfolding list_all_length by blast
            ultimately show "finished (players room ! j) = Some True" by simp
          qed
          from playerWon_round_end[OF Some \<open>status room = playing\<close> fi nf others ps_def refl refl]
          obtain room' where r: "fst (playerWon now socketId code rooms) = AList.update code room' rooms"
            and p: "players room' = ps[roundWinnerIndex ps := (ps ! roundWinnerIndex ps)
                      \<lparr>score := score (ps ! roundWinnerIndex ps) + 1\<rparr>]"
            and st: "status room' \<noteq> playing"
            by (auto split: if_splits)
          have "timedRoom room'" using ps'' st by (simp add: timedRoom_def p)
          with assms show ?thesis unfolding r by (rule timed_update)
        qed
      qed
    qed
  qed
qed

lemma requestNextRound_timed:
  assumes "timed rooms"
  shows "timed (fst (requestNextRound sh now code rooms))"
proof (cases "map_of rooms code")
  case None
  with assms show ?thesis by (simp add: requestNextRound_def)
next
  case (Some room)
  from timed_room[OF assms Some]
  have "status room \<noteq> playing \<Longrightarrow> timedRoom (room\<lparr>currentRound := currentRound room + 1\<rparr>)"
    by (simp add: timedRoom_def)
  with assms have "status room = round_over \<Longrightarrow>
      timed (AList.update code (room\<lparr>currentRound := currentRound room + 1\<rparr>) rooms)"
    by (intro timed_update) simp_all
  from startRound_timed[OF this] assms Some show ?thesis
    by (simp add: requestNextRound_def)
qed

lemma requestPlayAgain_timed:
  assumes "timed rooms"
  shows "timed (fst (requestPlayAgain code rooms))"
proof (cases "map_of rooms code")
  case None
  with assms show ?thesis by (simp add: requestPlayAgain_def)
next
  case (Some room)
  from timed_room[OF assms Some]
  have "timedRoom (room\<lparr>currentRound := 1, players := map (\<lambda>p. p\<lparr>score := 0\<rparr>) (players room),
                        status := waiting\<rparr>)"
    by (auto simp: timedRoom_def)
  with assms Some show ?thesis
    by (simp add: requestPlayAgain_def Let_def timed_update)
qed

lemma disconnectLoop_timed:
  "timed rooms \<Longrightarrow> timed (fst (disconnectLoop socketId codes rooms))"
proof (induction codes)
  case Nil
  then show ?case by simp
next
  case (Cons code codes)
  show ?case
  proof (cases "map_of rooms code")
    case None
    with Cons show ?thesis by simp
  next
    case (Some room)
    show ?thesis
    proof (cases "findIndex (\<lambda>p. pid p = socketId) (players room)")
      case None
      with Some Cons show ?thesis by simp
    next
      case fi: (Some i)
      have "set (take i (players room) @ drop (Suc i) (players room)) \<subseteq> set (players room)"
        using set_take_subset set_drop_subset by fastforce
      with timed_room[OF Cons.prems Some]
      have "timedRoom (room\<lparr>players := take i (players room) @ drop (Suc i) (players room)\<rparr>)"
        unfolding timedRoom_def by auto
      with Cons.prems have "timed (AList.update code
          (room\<lparr>players := take i (players room) @ drop (Suc i) (players room)\<rparr>) rooms)"
        by (rule timed_update)
      with Some fi Cons.prems show ?thesis
        by (auto simp: Let_def timed_delete)
    qed
  qed
qed

lemma perform_timed:
  assumes "timed rooms" and "perform a rooms = Some (rooms', sent)"
  shows "timed rooms'"
proof (cases a)
  case (CreateRoom rnd socketId playerName mp tr)
  with assms show ?thesis using createRoom_timed by auto
next
  case (JoinRoom sh now socketId playerName code)
  with assms show ?thesis using joinRoom_timed[of rooms sh now socketId playerName code] by auto
next
  case (PlayerMove socketId code position)
  with assms show ?thesis using playerMove_timed[of rooms socketId code position] by auto
next
  case (PlayerWon now socketId code)
  with assms show ?thesis using playerWon_timed[of rooms now socketId code] by auto
next
  case (RequestNextRound sh now code)
  with assms show ?thesis using requestNextRound_timed[of rooms sh now code] by auto
next
  case (RequestPlayAgain code)
  with assms show ?thesis using requestPlayAgain_timed[of rooms code] by auto
next
  case (Disconnect socketId)
  with assms show ?thesis
    using disconnectLoop_timed[of rooms socketId "forInKeys rooms"] by (auto simp: disconnect_def)
qed

lemma run_timed: "timed rooms \<Longrightarrow> run acts rooms = Some rooms' \<Longrightarrow> timed rooms'"
proof (induction acts arbitrary: rooms)
  case Nil
  then show ?case by simp
next
  case (Cons a acts)
  from Cons.prems(2) obtain rooms1 sent where p: "perform a rooms = Some (rooms1, sent)"
    and r: "run acts rooms1 = Some rooms'"
    by (auto split: option.splits)
  from perform_timed[OF Cons.prems(1) p] Cons.IH r show ?case by blast
qed

text \<open>
  C2. In every state that client actions lead to from the empty table: when \<open>playerWon\<close>
  runs for the last unfinished player of a playing room, every player is finished
  afterwards, with the time \<open>t j\<close> for player \<open>j\<close> (for the caller the time since the start
  of the round, for the others the time they had), and there is a winner \<open>w\<close>: no
  player has a smaller time, every player before \<open>w\<close> in the list has a strictly larger
  one, the score of \<open>w\<close> has gone up by one, no other score has changed, and \<open>w\<close> is the
  winner sent with the round result.
\<close>

theorem playerWon_round_winner:
  assumes "run acts [] = Some rooms"
    and "map_of rooms roomCode = Some room" and "status room = playing"
    and "findIndex (\<lambda>p. pid p = socketId) (players room) = Some i"
    and "finished (players room ! i) \<noteq> Some True"
    and "\<forall>j < length (players room). j \<noteq> i \<longrightarrow> finished (players room ! j) = Some True"
  shows "\<exists>w t t0 room' flag.
       startTime room = Some t0
     \<and> map_of (fst (playerWon now socketId roomCode rooms)) roomCode = Some room'
     \<and> length (players room') = length (players room)
     \<and> (\<forall>j < length (players room).
           finished (players room' ! j) = Some True \<and> lastFinishTime (players room' ! j) = Some (t j))
     \<and> t i = of_int (now - t0) / 1000
     \<and> (\<forall>j < length (players room). j \<noteq> i \<longrightarrow> lastFinishTime (players room ! j) = Some (t j))
     \<and> w < length (players room)
     \<and> (\<forall>j < length (players room). t w \<le> t j)
     \<and> (\<forall>j < w. t w < t j)
     \<and> score (players room' ! w) = score (players room ! w) + 1
     \<and> (\<forall>j < length (players room). j \<noteq> w \<longrightarrow> score (players room' ! j) = score (players room ! j))
     \<and> snd (playerWon now socketId roomCode rooms) =
         [(ToRoom roomCode,
           RoundResult (players room' ! w) (players room') (currentRound room) (totalRounds room) flag)]"
proof -
  have "timed []" by (simp add: timed_def)
  from run_timed[OF this assms(1)] assms(2) have tr: "timedRoom room" by (rule timed_room)
  with assms(3) obtain t0 where t0: "startTime room = Some t0" by (auto simp: timedRoom_def)
  have others: "\<forall>j < length (players room). j \<noteq> i \<longrightarrow>
           finished (players room ! j) = Some True \<and> lastFinishTime (players room ! j) \<noteq> None"
  proof (intro allI impI)
    fix j assume j: "j < length (players room)" "j \<noteq> i"
    with assms(6) have f: "finished (players room ! j) = Some True" by blast
    from j have "players room ! j \<in> set (players room)" by simp
    with tr f show "finished (players room ! j) = Some True \<and> lastFinishTime (players room ! j) \<noteq> None"
      unfolding timedRoom_def by blast
  qed
  from playerWon_first_minimum[OF assms(2-5) t0 others, of now] t0 show ?thesis by blast
qed


subsection \<open>No handler overfills a room\<close>

lemma withinCapacity_update:
  assumes "withinCapacity rooms"
    and "\<And>m. maxPlayers room = Some m \<Longrightarrow> 1 \<le> m \<Longrightarrow> int (length (players room)) \<le> m"
  shows "withinCapacity (AList.update code room rooms)"
  using assms unfolding withinCapacity_def by (auto simp: map_of_update)

lemma withinCapacity_delete: "withinCapacity rooms \<Longrightarrow> withinCapacity (AList.delete code rooms)"
  unfolding withinCapacity_def by (auto simp: delete_conv' split: if_splits)

lemma withinCapacity_room:
  "withinCapacity rooms \<Longrightarrow> map_of rooms code = Some room \<Longrightarrow> maxPlayers room = Some m \<Longrightarrow> 1 \<le> m \<Longrightarrow>
   int (length (players room)) \<le> m"
  unfolding withinCapacity_def by blast

lemma startRound_capacity: "withinCapacity rooms \<Longrightarrow> withinCapacity (fst (startRound sh now code rooms))"
  by (auto simp: startRound_def Let_def split: option.splits
      intro!: withinCapacity_update dest: withinCapacity_room)

lemma createRoom_capacity:
  "withinCapacity rooms \<Longrightarrow> createRoom rnd socketId playerName mp tr rooms = Some (rooms', sent) \<Longrightarrow>
   withinCapacity rooms'"
  by (auto simp: createRoom_def Let_def split: option.splits intro!: withinCapacity_update)

lemma joinRoom_capacity:
  assumes "withinCapacity rooms"
  shows "withinCapacity (fst (joinRoom sh now socketId playerName code rooms))"
proof (cases "map_of rooms code")
  case None
  with assms show ?thesis by (simp add: joinRoom_def)
next
  case (Some room)
  show ?thesis
  proof (cases "status room \<noteq> waiting \<or> numGe (int (length (players room))) (maxPlayers room)")
    case True
    with Some assms show ?thesis by (auto simp: joinRoom_def)
  next
    case False
    define newPlayer where "newPlayer = \<lparr>pid = socketId, name = playerName, score = 0,
        color = colors ! (length (players room) mod length colors),
        posX = None, posY = None, finished = None, finishTime = None, lastFinishTime = None\<rparr>"
    define rooms1 where "rooms1 = AList.update code (room\<lparr>players := players room @ [newPlayer]\<rparr>) rooms"
    have "int (length (players room @ [newPlayer])) \<le> m" if "maxPlayers room = Some m" for m
      using that False by (simp add: numGe_def)
    with assms have cap1: "withinCapacity rooms1"
      unfolding rooms1_def by (intro withinCapacity_update) simp_all
    have "fst (joinRoom sh now socketId playerName code rooms) = rooms1
        \<or> fst (joinRoom sh now socketId playerName code rooms) = fst (startRound sh now code rooms1)"
      using Some False
      by (auto simp: joinRoom_def Let_def rooms1_def newPlayer_def split: prod.splits)
    with cap1 startRound_capacity[OF cap1] show ?thesis by auto
  qed
qed

lemma room_update_capacity:
  assumes "withinCapacity rooms" and "map_of rooms code = Some room"
    and "length (players room') \<le> length (players room)"
    and "maxPlayers room' = maxPlayers room"
  shows "withinCapacity (AList.update code room' rooms)"
proof (rule withinCapacity_update[OF assms(1)])
  fix m assume "maxPlayers room' = Some m" "1 \<le> m"
  with assms(4) have "int (length (players room)) \<le> m"
    using withinCapacity_room[OF assms(1,2), of m] by simp
  with assms(3) show "int (length (players room')) \<le> m" by simp
qed

lemma playerMove_capacity:
  assumes "withinCapacity rooms"
  shows "withinCapacity (fst (playerMove socketId code position rooms))"
proof (cases "map_of rooms code")
  case None
  with assms show ?thesis by (simp add: playerMove_def)
next
  case (Some room)
  have "fst (playerMove socketId code position rooms) = rooms
      \<or> (\<exists>room'. fst (playerMove socketId code position rooms) = AList.update code room' rooms
            \<and> maxPlayers room' = maxPlayers room \<and> length (players room') = length (players room))"
    using Some by (auto simp: playerMove_def Let_def split: option.splits)
  with assms Some show ?thesis
    by (auto intro!: room_update_capacity[where room = room])
qed

lemma playerWon_capacity:
  assumes "withinCapacity rooms"
  shows "withinCapacity (fst (playerWon now socketId code rooms))"
proof (cases "map_of rooms code")
  case None
  with assms show ?thesis by (simp add: playerWon_def)
next
  case (Some room)
  have "fst (playerWon now socketId code rooms) = rooms
      \<or> (\<exists>room'. fst (playerWon now socketId code rooms) = AList.update code room' rooms
            \<and> maxPlayers room' = maxPlayers room \<and> length (players room') = length (players room))"
    using Some by (auto simp: playerWon_def Let_def split: option.splits)
  with assms Some show ?thesis
    by (auto intro!: room_update_capacity[where room = room])
qed

lemma requestNextRound_capacity:
  assumes "withinCapacity rooms"
  shows "withinCapacity (fst (requestNextRound sh now code rooms))"
proof (cases "map_of rooms code")
  case None
  with assms show ?thesis by (simp add: requestNextRound_def)
next
  case (Some room)
  have "withinCapacity (AList.update code (room\<lparr>currentRound := currentRound room + 1\<rparr>) rooms)"
    using assms Some by (intro room_update_capacity[where room = room]) simp_all
  from startRound_capacity[OF this] assms Some show ?thesis
    by (simp add: requestNextRound_def)
qed

lemma requestPlayAgain_capacity:
  assumes "withinCapacity rooms"
  shows "withinCapacity (fst (requestPlayAgain code rooms))"
proof (cases "map_of rooms code")
  case None
  with assms show ?thesis by (simp add: requestPlayAgain_def)
next
  case (Some room)
  with assms show ?thesis
    by (auto simp: requestPlayAgain_def Let_def intro!: room_update_capacity[where room = room])
qed

lemma disconnectLoop_capacity:
  "withinCapacity rooms \<Longrightarrow> withinCapacity (fst (disconnectLoop socketId codes rooms))"
proof (induction codes)
  case Nil
  then show ?case by simp
next
  case (Cons code codes)
  show ?case
  proof (cases "map_of rooms code")
    case None
    with Cons show ?thesis by simp
  next
    case (Some room)
    show ?thesis
    proof (cases "findIndex (\<lambda>p. pid p = socketId) (players room)")
      case None
      with Some Cons show ?thesis by simp
    next
      case fi: (Some i)
      have "withinCapacity (AList.update code
          (room\<lparr>players := take i (players room) @ drop (Suc i) (players room)\<rparr>) rooms)"
        using Cons.prems Some
        by (intro room_update_capacity[where room = room]) simp_all
      with Some fi Cons.prems show ?thesis
        by (auto simp: Let_def withinCapacity_delete)
    qed
  qed
qed

lemma perform_capacity:
  "withinCapacity rooms \<Longrightarrow> perform a rooms = Some (rooms', sent) \<Longrightarrow> withinCapacity rooms'"
proof (cases a)
  case (CreateRoom rnd socketId playerName mp tr)
  then show "withinCapacity rooms \<Longrightarrow> perform a rooms = Some (rooms', sent) \<Longrightarrow> withinCapacity rooms'"
    using createRoom_capacity by auto
next
  case (JoinRoom sh now socketId playerName code)
  then show "withinCapacity rooms \<Longrightarrow> perform a rooms = Some (rooms', sent) \<Longrightarrow> withinCapacity rooms'"
    using joinRoom_capacity[of rooms sh now socketId playerName code] by auto
next
  case (PlayerMove socketId code position)
  then show "withinCapacity rooms \<Longrightarrow> perform a rooms = Some (rooms', sent) \<Longrightarrow> withinCapacity rooms'"
    using playerMove_capacity[of rooms socketId code position] by auto
next
  case (PlayerWon now socketId code)
  then show "withinCapacity rooms \<Longrightarrow> perform a rooms = Some (rooms', sent) \<Longrightarrow> withinCapacity rooms'"
    using playerWon_capacity[of rooms now socketId code] by auto
next
  case (RequestNextRound sh now code)
  then show "withinCapacity rooms \<Longrightarrow> perform a rooms = Some (rooms', sent) \<Longrightarrow> withinCapacity rooms'"
    using requestNextRound_capacity[of rooms sh now code] by auto
next
  case (RequestPlayAgain code)
  then show "withinCapacity rooms \<Longrightarrow> perform a rooms = Some (rooms', sent) \<Longrightarrow> withinCapacity rooms'"
    using requestPlayAgain_capacity[of rooms code] by auto
next
  case (Disconnect socketId)
  then show "withinCapacity rooms \<Longrightarrow> perform a rooms = Some (rooms', sent) \<Longrightarrow> withinCapacity rooms'"
    using disconnectLoop_capacity[of rooms socketId "forInKeys rooms"] by (auto simp: disconnect_def)
qed

lemma run_capacity:
  "withinCapacity rooms \<Longrightarrow> run acts rooms = Some rooms' \<Longrightarrow> withinCapacity rooms'"
proof (induction acts arbitrary: rooms)
  case Nil
  then show ?case by simp
next
  case (Cons a acts)
  from Cons.prems(2) obtain rooms1 sent where p: "perform a rooms = Some (rooms1, sent)"
    and r: "run acts rooms1 = Some rooms'"
    by (auto split: option.splits)
  from perform_capacity[OF Cons.prems(1) p] Cons.IH r show ?case by blast
qed

text \<open>
  C7, in the form that holds. After any sequence of client actions from the empty table,
  a room whose \<open>maxPlayers\<close> is a number of at least 1 has at most that many players.
\<close>

theorem players_within_maxPlayers:
  assumes "run acts [] = Some rooms" and "map_of rooms roomCode = Some room"
    and "maxPlayers room = Some m" and "1 \<le> m"
  shows "int (length (players room)) \<le> m"
proof -
  have "withinCapacity []" by (simp add: withinCapacity_def)
  from run_capacity[OF this assms(1)] assms(2-4) show ?thesis by (rule withinCapacity_room)
qed

subsection \<open>How the status of a room changes\<close>

text \<open>
  Every handler moves the status of a room that stays in the table by an allowed step,
  with one exception: \<open>requestPlayAgain\<close> sets the status of its room to \<open>waiting\<close>
  from any status.
\<close>

lemma startRound_status:
  assumes "map_of rooms code = Some room" "map_of (fst (startRound sh now c rooms)) code = Some room'"
  shows "status room' = status room \<or> (c = code \<and> status room' = playing)"
  using assms by (auto simp: startRound_def Let_def map_of_update split: option.splits if_splits)

lemma createRoom_status:
  assumes "createRoom rnd socketId playerName mp tr rooms = Some (rooms', sent)"
    and "map_of rooms code = Some room" "map_of rooms' code = Some room'"
  shows "status room' = status room"
proof -
  from assms(1) obtain c where c: "generateRoomCode rnd 0 rooms = Some c"
    by (auto simp: createRoom_def split: option.splits)
  from generateRoomCode_result[OF c] have "map_of rooms c = None" by blast
  with assms(2) have "c \<noteq> code" by auto
  with assms c show ?thesis by (auto simp: createRoom_def Let_def map_of_update)
qed

lemma joinRoom_status:
  assumes "map_of rooms code = Some room"
    and "map_of (fst (joinRoom sh now socketId playerName c rooms)) code = Some room'"
  shows "statusStep (status room) (status room')"
proof (cases "map_of rooms c")
  case None
  with assms show ?thesis by (simp add: joinRoom_def statusStep_def)
next
  case (Some r)
  show ?thesis
  proof (cases "status r \<noteq> waiting \<or> numGe (int (length (players r))) (maxPlayers r)")
    case True
    with Some have "fst (joinRoom sh now socketId playerName c rooms) = rooms"
      by (auto simp: joinRoom_def)
    with assms show ?thesis by (simp add: statusStep_def)
  next
    case False
    define newPlayer where "newPlayer = \<lparr>pid = socketId, name = playerName, score = 0,
        color = colors ! (length (players r) mod length colors),
        posX = None, posY = None, finished = None, finishTime = None, lastFinishTime = None\<rparr>"
    define rooms1 where "rooms1 = AList.update c (r\<lparr>players := players r @ [newPlayer]\<rparr>) rooms"
    have j: "fst (joinRoom sh now socketId playerName c rooms) = rooms1
        \<or> fst (joinRoom sh now socketId playerName c rooms) = fst (startRound sh now c rooms1)"
      using Some False
      by (auto simp: joinRoom_def Let_def rooms1_def newPlayer_def split: prod.splits)
    obtain room1 where r1: "map_of rooms1 code = Some room1" "status room1 = status room"
      using assms(1) Some by (cases "c = code") (auto simp: rooms1_def map_of_update)
    from j show ?thesis
    proof
      assume "fst (joinRoom sh now socketId playerName c rooms) = rooms1"
      with assms(2) r1 show ?thesis by (simp add: statusStep_def)
    next
      assume "fst (joinRoom sh now socketId playerName c rooms) = fst (startRound sh now c rooms1)"
      with assms(2) startRound_status[OF r1(1), of sh now c room'] r1(2)
      have "status room' = status room \<or> (c = code \<and> status room' = playing)" by simp
      moreover have "c = code \<Longrightarrow> status room = waiting" using Some False assms(1) by auto
      ultimately show ?thesis by (auto simp: statusStep_def)
    qed
  qed
qed

lemma playerMove_status:
  assumes "map_of rooms code = Some room"
    and "map_of (fst (playerMove socketId c position rooms)) code = Some room'"
  shows "status room' = status room"
  using assms
  by (auto simp: playerMove_def Let_def map_of_update split: option.splits if_splits)

lemma playerWon_status:
  assumes "map_of rooms code = Some room"
    and "map_of (fst (playerWon now socketId c rooms)) code = Some room'"
  shows "statusStep (status room) (status room')"
  using assms
  by (auto simp: playerWon_def Let_def map_of_update statusStep_def split: option.splits if_splits)

lemma requestNextRound_status:
  assumes "map_of rooms code = Some room"
    and "map_of (fst (requestNextRound sh now c rooms)) code = Some room'"
  shows "statusStep (status room) (status room')"
proof (cases "map_of rooms c")
  case None
  with assms show ?thesis by (simp add: requestNextRound_def statusStep_def)
next
  case (Some r)
  show ?thesis
  proof (cases "status r = round_over \<and> numLt (currentRound r) (totalRounds r)")
    case False
    with Some have "fst (requestNextRound sh now c rooms) = rooms"
      by (auto simp: requestNextRound_def)
    with assms show ?thesis by (simp add: statusStep_def)
  next
    case True
    define rooms1 where "rooms1 = AList.update c (r\<lparr>currentRound := currentRound r + 1\<rparr>) rooms"
    obtain room1 where r1: "map_of rooms1 code = Some room1" "status room1 = status room"
      using assms(1) Some by (cases "c = code") (auto simp: rooms1_def map_of_update)
    from True Some assms(2) have "map_of (fst (startRound sh now c rooms1)) code = Some room'"
      by (simp add: requestNextRound_def rooms1_def)
    from startRound_status[OF r1(1) this] r1(2)
    have "status room' = status room \<or> (c = code \<and> status room' = playing)" by simp
    moreover have "c = code \<Longrightarrow> status room = round_over" using Some True assms(1) by auto
    ultimately show ?thesis by (auto simp: statusStep_def)
  qed
qed

lemma disconnectLoop_status:
  "map_of rooms code = Some room \<Longrightarrow>
   map_of (fst (disconnectLoop socketId codes rooms)) code = Some room' \<Longrightarrow>
   status room' = status room"
proof (induction codes)
  case Nil
  then show ?case by simp
next
  case (Cons c codes)
  show ?case
  proof (cases "map_of rooms c")
    case None
    with Cons show ?thesis by simp
  next
    case (Some r)
    show ?thesis
    proof (cases "findIndex (\<lambda>p. pid p = socketId) (players r)")
      case None
      with Some Cons show ?thesis by simp
    next
      case fi: (Some i)
      with Some Cons.prems show ?thesis
        by (auto simp: Let_def map_of_update delete_conv' split: if_splits)
    qed
  qed
qed

lemma requestPlayAgain_status:
  assumes "map_of rooms code = Some room"
    and "map_of (fst (requestPlayAgain c rooms)) code = Some room'"
  shows "status room' = status room \<or> (c = code \<and> status room' = waiting)"
  using assms
  by (auto simp: requestPlayAgain_def Let_def map_of_update split: option.splits if_splits)

lemma perform_status:
  assumes "perform a rooms = Some (rooms', sent)"
    and "map_of rooms code = Some room" and "map_of rooms' code = Some room'"
  shows "statusStep (status room) (status room') \<or> (a = RequestPlayAgain code \<and> status room' = waiting)"
proof (cases a)
  case (CreateRoom rnd socketId playerName mp tr)
  with assms createRoom_status[of rnd socketId playerName mp tr rooms rooms' sent code room room']
  show ?thesis by (simp add: statusStep_def)
next
  case (JoinRoom sh now socketId playerName c)
  with assms joinRoom_status[of rooms code room sh now socketId playerName c room']
  show ?thesis by auto
next
  case (PlayerMove socketId c position)
  with assms playerMove_status[of rooms code room socketId c position room']
  show ?thesis by (auto simp: statusStep_def)
next
  case (PlayerWon now socketId c)
  with assms playerWon_status[of rooms code room now socketId c room']
  show ?thesis by auto
next
  case (RequestNextRound sh now c)
  with assms requestNextRound_status[of rooms code room sh now c room']
  show ?thesis by auto
next
  case (RequestPlayAgain c)
  with assms requestPlayAgain_status[of rooms code room c room']
  show ?thesis by (auto simp: statusStep_def)
next
  case (Disconnect socketId)
  with assms disconnectLoop_status[of rooms code room socketId "forInKeys rooms" room']
  show ?thesis by (auto simp: statusStep_def disconnect_def)
qed

section \<open>The example rooms, run\<close>

lemma randomCode_zero: "randomCode zeroRandom n = ''AAAA''"
  by (simp add: randomCode_def zeroRandom_def characters_def charAt_def upt_rec)

lemma generateRoomCode_zero: "generateRoomCode zeroRandom 0 [] = Some ''AAAA''"
  by (subst generateRoomCode.simps) (simp add: randomCode_zero)

lemma createRoom_host:
  "createRoom zeroRandom ''s1'' ''Ann'' limit rounds [] =
     Some ([(''AAAA'', hostRoom limit rounds)],
           [(ToSocket ''s1'', RoomCreated ''AAAA'' True (hostRoom limit rounds))])"
  by (simp add: createRoom_def generateRoomCode_zero hostRoom_def newcomer_def Let_def)

lemma joinRoom_second:
  "joinRoom keepOrder 1000 ''s2'' ''Bob'' ''AAAA'' [(''AAAA'', hostRoom (Some 2) (Some 3))] =
     ([(''AAAA'', playingRoom)],
      [(ToRoom ''AAAA'',
        PlayerJoined [newcomer ''s1'' ''Ann'' ''#FF4136'', newcomer ''s2'' ''Bob'' ''#2ECC40''] ''AAAA'' (Some 2)),
       (ToRoom ''AAAA'',
        GameStart (generateMaze keepOrder 21 21) 1 (players playingRoom) 1000 ''AAAA'')])"
  by (simp add: joinRoom_def hostRoom_def newcomer_def numGe_def numEq_def colors_def
      startRound_def playingRoom_def racer_def Let_def)

lemma run_playing:
  "run [CreateRoom zeroRandom ''s1'' ''Ann'' (Some 2) (Some 3),
        JoinRoom keepOrder 1000 ''s2'' ''Bob'' ''AAAA''] [] = Some [(''AAAA'', playingRoom)]"
  by (simp add: createRoom_host joinRoom_second)

lemma playerWon_race:
  "playerWon 6000 ''s1'' ''RACE'' [(''RACE'', raceRoom)] =
     ([(''RACE'', raceRoom\<lparr>players :=
            [racer ''s1'' ''P1'' ''#FF4136'' 0 True (Some 5),
             racer ''s2'' ''P2'' ''#2ECC40'' 3 True (Some (16 / 5)),
             racer ''s3'' ''P3'' ''#0074D9'' 1 True (Some (16 / 5))],
          status := game_over\<rparr>)],
      [(ToRoom ''RACE'',
        RoundResult (racer ''s2'' ''P2'' ''#2ECC40'' 3 True (Some (16 / 5)))
          [racer ''s1'' ''P1'' ''#FF4136'' 0 True (Some 5),
           racer ''s2'' ''P2'' ''#2ECC40'' 3 True (Some (16 / 5)),
           racer ''s3'' ''P3'' ''#0074D9'' 1 True (Some (16 / 5))] 4 (Some 5) True)])"
  by (simp add: playerWon_def raceRoom_def racer_def Let_def elapsed_def roundWinnerIndex_def
      sortCmp_def byFinishTime_def positive_def upt_rec numGe_def numEq_def winsNeeded_def)

lemma randomCode_retry: "randomCode retryRandom 0 = ''AAAA''" "randomCode retryRandom 4 = ''BBBB''"
  by (simp_all add: randomCode_def retryRandom_def characters_def charAt_def upt_rec)

lemma generateRoomCode_retry:
  "generateRoomCode retryRandom 0 [(''AAAA'', hostRoom (Some 2) (Some 3))] = Some ''BBBB''"
  by (subst generateRoomCode.simps, simp add: randomCode_retry, subst generateRoomCode.simps)
     (simp add: randomCode_retry)

lemma race_hyps:
  "map_of [(''RACE'', raceRoom)] ''RACE'' = Some raceRoom"
  "status raceRoom = playing"
  "findIndex (\<lambda>p. pid p = ''s1'') (players raceRoom) = Some 0"
  "finished (players raceRoom ! 0) \<noteq> Some True"
  "startTime raceRoom = Some 1000"
  "length (players raceRoom) = 3"
  "finished (players raceRoom ! 1) = Some True" "lastFinishTime (players raceRoom ! 1) = Some (16 / 5)"
  "finished (players raceRoom ! 2) = Some True" "lastFinishTime (players raceRoom ! 2) = Some (16 / 5)"
  "score (players raceRoom ! 0) = 0" "score (players raceRoom ! 1) = 2" "score (players raceRoom ! 2) = 1"
  "totalRounds raceRoom = Some 5" "currentRound raceRoom = 4"
  by (simp_all add: raceRoom_def racer_def)

lemma less_3: "(j::nat) < 3 \<longleftrightarrow> j = 0 \<or> j = 1 \<or> j = 2"
  by auto

lemma run_trio:
  "run [CreateRoom zeroRandom ''s1'' ''Ann'' (Some 3) (Some 5),
        JoinRoom keepOrder 500 ''s2'' ''Bob'' ''AAAA'',
        JoinRoom keepOrder 1000 ''s3'' ''Cy'' ''AAAA'',
        PlayerWon 4200 ''s2'' ''AAAA'',
        PlayerWon 4200 ''s3'' ''AAAA''] [] = Some [(''AAAA'', trioRoom)]"
  by (simp add: createRoom_host)
     (simp add: hostRoom_def newcomer_def joinRoom_def numGe_def numEq_def colors_def startRound_def
        playerWon_def elapsed_def trioRoom_def racer_def Let_def)

lemma trio_hyps:
  "map_of [(''AAAA'', trioRoom)] ''AAAA'' = Some trioRoom"
  "status trioRoom = playing"
  "findIndex (\<lambda>p. pid p = ''s1'') (players trioRoom) = Some 0"
  "finished (players trioRoom ! 0) \<noteq> Some True"
  "length (players trioRoom) = 3"
  "finished (players trioRoom ! 1) = Some True" "lastFinishTime (players trioRoom ! 1) = Some (16 / 5)"
  "finished (players trioRoom ! 2) = Some True" "lastFinishTime (players trioRoom ! 2) = Some (16 / 5)"
  "score (players trioRoom ! 0) = 0" "score (players trioRoom ! 1) = 0" "score (players trioRoom ! 2) = 0"
  "totalRounds trioRoom = Some 5" "currentRound trioRoom = 1" "startTime trioRoom = Some 1000"
  by (simp_all add: trioRoom_def racer_def)

text \<open>
  The tie of the specification, reached by a run: Bob and Cy both finish after 3.2
  seconds, Ann after 5; the winner is Bob, who is listed before Cy.
\<close>

theorem playerWon_round_winner_witness:
  "run [CreateRoom zeroRandom ''s1'' ''Ann'' (Some 3) (Some 5),
        JoinRoom keepOrder 500 ''s2'' ''Bob'' ''AAAA'',
        JoinRoom keepOrder 1000 ''s3'' ''Cy'' ''AAAA'',
        PlayerWon 4200 ''s2'' ''AAAA'',
        PlayerWon 4200 ''s3'' ''AAAA''] [] = Some [(''AAAA'', trioRoom)]
   \<and> map_of [(''AAAA'', trioRoom)] ''AAAA'' = Some trioRoom
   \<and> status trioRoom = playing
   \<and> findIndex (\<lambda>p. pid p = ''s1'') (players trioRoom) = Some 0
   \<and> finished (players trioRoom ! 0) \<noteq> Some True
   \<and> length (players trioRoom) = 3
   \<and> finished (players trioRoom ! 1) = Some True \<and> lastFinishTime (players trioRoom ! 1) = Some (16 / 5)
   \<and> finished (players trioRoom ! 2) = Some True \<and> lastFinishTime (players trioRoom ! 2) = Some (16 / 5)
   \<and> (\<exists>room' flag. map_of (fst (playerWon 6000 ''s1'' ''AAAA'' [(''AAAA'', trioRoom)])) ''AAAA'' = Some room'
         \<and> lastFinishTime (players room' ! 0) = Some 5
         \<and> score (players room' ! 0) = 0 \<and> score (players room' ! 1) = 1 \<and> score (players room' ! 2) = 0
         \<and> snd (playerWon 6000 ''s1'' ''AAAA'' [(''AAAA'', trioRoom)]) =
              [(ToRoom ''AAAA'', RoundResult (players room' ! 1) (players room') 1 (Some 5) flag)])"
proof -
  have others: "\<forall>j < length (players trioRoom). j \<noteq> 0 \<longrightarrow> finished (players trioRoom ! j) = Some True"
  proof (intro allI impI)
    fix j assume "j < length (players trioRoom)" "j \<noteq> 0"
    then have "j = 1 \<or> j = 2" by (simp add: trio_hyps(5) less_3)
    then show "finished (players trioRoom ! j) = Some True"
      using trio_hyps(6,8) by auto
  qed
  from playerWon_round_winner[OF run_trio trio_hyps(1-4) others, of 6000]
  obtain w t t0 room' flag where
        s: "startTime trioRoom = Some t0"
    and a: "map_of (fst (playerWon 6000 ''s1'' ''AAAA'' [(''AAAA'', trioRoom)])) ''AAAA'' = Some room'"
    and c: "\<forall>j < length (players trioRoom). finished (players room' ! j) = Some True
              \<and> lastFinishTime (players room' ! j) = Some (t j)"
    and d: "t 0 = of_int (6000 - t0) / 1000"
    and e: "\<forall>j < length (players trioRoom). j \<noteq> 0 \<longrightarrow> lastFinishTime (players trioRoom ! j) = Some (t j)"
    and wl: "w < length (players trioRoom)"
    and wmin: "\<forall>j < length (players trioRoom). t w \<le> t j"
    and wfirst: "\<forall>j < w. t w < t j"
    and f: "score (players room' ! w) = score (players trioRoom ! w) + 1"
    and g: "\<forall>j < length (players trioRoom). j \<noteq> w \<longrightarrow> score (players room' ! j) = score (players trioRoom ! j)"
    and h: "snd (playerWon 6000 ''s1'' ''AAAA'' [(''AAAA'', trioRoom)]) =
         [(ToRoom ''AAAA'',
           RoundResult (players room' ! w) (players room') (currentRound trioRoom) (totalRounds trioRoom) flag)]"
    by blast
  from s have "t0 = 1000" by (simp add: trio_hyps)
  with d have t0: "t 0 = 5" by simp
  from e[rule_format, of 1] e[rule_format, of 2] have t1: "t 1 = 16 / 5" and t2: "t 2 = 16 / 5"
    by (simp_all add: trio_hyps del: One_nat_def)
  have w: "w = 1"
  proof -
    from wl have "w = 0 \<or> w = 1 \<or> w = 2" by (simp add: trio_hyps less_3)
    moreover have "w \<noteq> 0"
    proof
      assume "w = 0"
      with wmin[rule_format, of 1] have "t 0 \<le> t 1" by (simp add: trio_hyps(5))
      with t0 t1 show False by simp
    qed
    moreover have "w \<noteq> 2"
    proof
      assume "w = 2"
      with wfirst[rule_format, of 1] have "t 2 < t 1" by simp
      with t1 t2 show False by simp
    qed
    ultimately show ?thesis by simp
  qed
  from c[rule_format, of 0] t0 have l0: "lastFinishTime (players room' ! 0) = Some 5"
    by (simp add: trio_hyps)
  from f g[rule_format, of 0] g[rule_format, of 2] w
  have sc: "score (players room' ! 0) = 0" "score (players room' ! 1) = 1"
    "score (players room' ! 2) = 0" by (simp_all add: trio_hyps del: One_nat_def)
  from a l0 sc h w show ?thesis
    unfolding run_trio by (simp add: trio_hyps del: One_nat_def)
qed

text \<open>
  In round 4 of 5, P2 wins for the third time: the match is over before the last round.
\<close>

theorem playerWon_match_winner_witness:
  "map_of [(''RACE'', raceRoom)] ''RACE'' = Some raceRoom
   \<and> status raceRoom = playing
   \<and> findIndex (\<lambda>p. pid p = ''s1'') (players raceRoom) = Some 0
   \<and> finished (players raceRoom ! 0) \<noteq> Some True
   \<and> length (players raceRoom) = 3
   \<and> finished (players raceRoom ! 1) = Some True \<and> finished (players raceRoom ! 2) = Some True
   \<and> totalRounds raceRoom = Some 5 \<and> currentRound raceRoom = 4
   \<and> (\<exists>winner room'.
         snd (playerWon 6000 ''s1'' ''RACE'' [(''RACE'', raceRoom)]) =
           [(ToRoom ''RACE'', RoundResult winner (players room') 4 (Some 5) True)]
         \<and> map_of (fst (playerWon 6000 ''s1'' ''RACE'' [(''RACE'', raceRoom)])) ''RACE'' = Some room'
         \<and> score winner = 3 \<and> status room' = game_over)"
proof -
  have others: "\<forall>j < length (players raceRoom). j \<noteq> 0 \<longrightarrow> finished (players raceRoom ! j) = Some True"
  proof (intro allI impI)
    fix j assume "j < length (players raceRoom)" "j \<noteq> 0"
    then have "j = 1 \<or> j = 2" by (simp add: race_hyps(6) less_3)
    then show "finished (players raceRoom ! j) = Some True"
      using race_hyps(7,9) by auto
  qed
  from playerWon_match_winner[OF race_hyps(1-4) others, of 6000]
  obtain winner flag room' where
        a: "snd (playerWon 6000 ''s1'' ''RACE'' [(''RACE'', raceRoom)]) =
         [(ToRoom ''RACE'',
           RoundResult winner (players room') (currentRound raceRoom) (totalRounds raceRoom) flag)]"
    and b: "map_of (fst (playerWon 6000 ''s1'' ''RACE'' [(''RACE'', raceRoom)])) ''RACE'' = Some room'"
    and f: "(status room' = game_over) = flag"
    and five: "totalRounds raceRoom = Some 5 \<and> score winner \<ge> 3 \<longrightarrow> status room' = game_over"
    by blast
  from a have "score winner = 3" by (auto simp: playerWon_race racer_def)
  with five have "status room' = game_over" by (simp add: race_hyps)
  with a b f \<open>score winner = 3\<close> show ?thesis by (simp add: race_hyps del: One_nat_def)
qed

text \<open>
  A finish signal from P2, who has finished, from a room that is still waiting, and a
  second one from P1 after the first has ended the round: none of them changes anything.
\<close>

theorem playerWon_idempotent_witness:
  "map_of [(''RACE'', raceRoom)] ''RACE'' = Some raceRoom
   \<and> status raceRoom = playing
   \<and> findIndex (\<lambda>p. pid p = ''s2'') (players raceRoom) = Some 1
   \<and> finished (players raceRoom ! 1) = Some True
   \<and> playerWon 7000 ''s2'' ''RACE'' [(''RACE'', raceRoom)] = ([(''RACE'', raceRoom)], [])
   \<and> map_of [(''AAAA'', hostRoom (Some 2) (Some 3))] ''AAAA'' = Some (hostRoom (Some 2) (Some 3))
   \<and> status (hostRoom (Some 2) (Some 3)) = waiting
   \<and> playerWon 7000 ''s1'' ''AAAA'' [(''AAAA'', hostRoom (Some 2) (Some 3))] = ([(''AAAA'', hostRoom (Some 2) (Some 3))], [])
   \<and> fst (playerWon 6000 ''s1'' ''RACE'' [(''RACE'', raceRoom)]) \<noteq> [(''RACE'', raceRoom)]
   \<and> playerWon 7000 ''s1'' ''RACE'' (fst (playerWon 6000 ''s1'' ''RACE'' [(''RACE'', raceRoom)]))
       = (fst (playerWon 6000 ''s1'' ''RACE'' [(''RACE'', raceRoom)]), [])"
proof -
  have fi: "findIndex (\<lambda>p. pid p = ''s2'') (players raceRoom) = Some 1"
    by (simp add: raceRoom_def racer_def)
  have host: "map_of [(''AAAA'', hostRoom (Some 2) (Some 3))] ''AAAA'' = Some (hostRoom (Some 2) (Some 3))"
    "status (hostRoom (Some 2) (Some 3)) = waiting" by (simp_all add: hostRoom_def)
  have changed: "fst (playerWon 6000 ''s1'' ''RACE'' [(''RACE'', raceRoom)]) \<noteq> [(''RACE'', raceRoom)]"
    unfolding playerWon_race by (simp add: raceRoom_def racer_def)
  show ?thesis
    using playerWon_idempotent[of "[(''RACE'', raceRoom)]" "''RACE''" raceRoom "''s2''" 7000 7000]
      playerWon_idempotent[of "[(''AAAA'', hostRoom (Some 2) (Some 3))]" "''AAAA''" "hostRoom (Some 2) (Some 3)" "''s1''" 7000 7000]
      playerWon_idempotent[of "[(''RACE'', raceRoom)]" "''RACE''" raceRoom "''s1''" 6000 7000]
      fi host changed
    by (simp add: race_hyps del: One_nat_def)
qed

text \<open>
  The first code drawn, \<open>AAAA\<close>, is taken; the generator draws again and the new room
  gets \<open>BBBB\<close>.
\<close>

theorem createRoom_code_witness:
  "unitInterval retryRandom
   \<and> randomCode retryRandom 0 = ''AAAA'' \<and> randomCode retryRandom 4 = ''BBBB''
   \<and> map_of [(''AAAA'', hostRoom (Some 2) (Some 3))] ''AAAA'' \<noteq> None
   \<and> map_of [(''AAAA'', hostRoom (Some 2) (Some 3))] ''BBBB'' = None
   \<and> (\<exists>rooms' room.
         createRoom retryRandom ''s9'' ''Zed'' (Some 4) (Some 3) [(''AAAA'', hostRoom (Some 2) (Some 3))]
           = Some (rooms', [(ToSocket ''s9'', RoomCreated ''BBBB'' True room)])
         \<and> map_of rooms' ''BBBB'' = Some room \<and> rid room = ''BBBB''
         \<and> map_of rooms' ''AAAA'' = Some (hostRoom (Some 2) (Some 3)))"
proof -
  have u: "unitInterval retryRandom" by (simp add: unitInterval_def retryRandom_def)
  have "\<exists>rooms' room0.
      createRoom retryRandom ''s9'' ''Zed'' (Some 4) (Some 3) [(''AAAA'', hostRoom (Some 2) (Some 3))]
        = Some (rooms', [(ToSocket ''s9'', RoomCreated ''BBBB'' True room0)])"
    by (simp add: createRoom_def generateRoomCode_retry Let_def)
  then obtain rooms' room0 where
    cr: "createRoom retryRandom ''s9'' ''Zed'' (Some 4) (Some 3) [(''AAAA'', hostRoom (Some 2) (Some 3))]
           = Some (rooms', [(ToSocket ''s9'', RoomCreated ''BBBB'' True room0)])"
    by blast
  from createRoom_code[OF u, of "''s9''" "''Zed''" "Some 4" "Some 3" "[(''AAAA'', hostRoom (Some 2) (Some 3))]"] cr
  obtain roomCode room where r: "map_of rooms' roomCode = Some room" "rid room = roomCode"
    "\<forall>code. code \<noteq> roomCode \<longrightarrow> map_of rooms' code = map_of [(''AAAA'', hostRoom (Some 2) (Some 3))] code"
    "[(ToSocket ''s9'', RoomCreated ''BBBB'' True room0)] = [(ToSocket ''s9'', RoomCreated roomCode True room)]"
    by blast
  from r(4) have b: "roomCode = ''BBBB''" "room0 = room" by simp_all
  from r(3) b have "map_of rooms' ''AAAA'' = Some (hostRoom (Some 2) (Some 3))" by simp
  with cr r(1,2) b u show ?thesis by (simp add: randomCode_retry)
qed

text \<open>
  A room of two that has filled and started: a third player who joins is told that the
  game is in progress, not that the room is full.
\<close>

theorem joinRoom_full_counterexample:
  "run [CreateRoom zeroRandom ''s1'' ''Ann'' (Some 2) (Some 3),
        JoinRoom keepOrder 1000 ''s2'' ''Bob'' ''AAAA''] [] = Some [(''AAAA'', playingRoom)]
   \<and> map_of [(''AAAA'', playingRoom)] ''AAAA'' = Some playingRoom
   \<and> maxPlayers playingRoom = Some (int (length (players playingRoom)))
   \<and> joinRoom keepOrder 2000 ''s3'' ''Cy'' ''AAAA'' [(''AAAA'', playingRoom)] =
        ([(''AAAA'', playingRoom)], [(ToSocket ''s3'', ErrorMsg ''Game already in progress'')])
   \<and> snd (joinRoom keepOrder 2000 ''s3'' ''Cy'' ''AAAA'' [(''AAAA'', playingRoom)]) \<noteq>
        [(ToSocket ''s3'', ErrorMsg ''Room is full'')]"
  unfolding run_playing by (simp add: joinRoom_def playingRoom_def)

text \<open>
  A room created for one player is full and waiting, and answers that it is full.
\<close>

theorem joinRoom_full_witness:
  "createRoom zeroRandom ''s1'' ''Ann'' (Some 1) (Some 3) [] =
     Some ([(''AAAA'', hostRoom (Some 1) (Some 3))], [(ToSocket ''s1'', RoomCreated ''AAAA'' True (hostRoom (Some 1) (Some 3)))])
   \<and> map_of [(''AAAA'', hostRoom (Some 1) (Some 3))] ''AAAA'' = Some (hostRoom (Some 1) (Some 3))
   \<and> maxPlayers (hostRoom (Some 1) (Some 3)) = Some (int (length (players (hostRoom (Some 1) (Some 3)))))
   \<and> status (hostRoom (Some 1) (Some 3)) = waiting
   \<and> joinRoom keepOrder 1000 ''s2'' ''Bob'' ''AAAA'' [(''AAAA'', hostRoom (Some 1) (Some 3))] =
        ([(''AAAA'', hostRoom (Some 1) (Some 3))], [(ToSocket ''s2'', ErrorMsg ''Room is full'')])
   \<and> joinRoom keepOrder 2000 ''s3'' ''Cy'' ''AAAA'' [(''AAAA'', playingRoom)] =
        ([(''AAAA'', playingRoom)], [(ToSocket ''s3'', ErrorMsg ''Game already in progress'')])"
proof -
  have h: "map_of [(''AAAA'', hostRoom (Some 1) (Some 3))] ''AAAA'' = Some (hostRoom (Some 1) (Some 3))"
    "maxPlayers (hostRoom (Some 1) (Some 3)) = Some (int (length (players (hostRoom (Some 1) (Some 3)))))"
    "status (hostRoom (Some 1) (Some 3)) = waiting"
    by (simp_all add: hostRoom_def)
  have p: "map_of [(''AAAA'', playingRoom)] ''AAAA'' = Some playingRoom"
    "maxPlayers playingRoom = Some (int (length (players playingRoom)))"
    "status playingRoom \<noteq> waiting"
    by (simp_all add: playingRoom_def)
  show ?thesis
    using joinRoom_full[OF h(1,2), of keepOrder 1000 "''s2''" "''Bob''"]
      joinRoom_full[OF p(1,2), of keepOrder 2000 "''s3''" "''Cy''"] h p createRoom_host[of "Some 1" "Some 3"]
    by simp
qed

text \<open>
  The scenario of the specification: a room for two starts when the second player joins.
\<close>

theorem joinRoom_autostart_witness:
  "createRoom zeroRandom ''s1'' ''Ann'' (Some 2) (Some 3) [] =
     Some ([(''AAAA'', hostRoom (Some 2) (Some 3))], [(ToSocket ''s1'', RoomCreated ''AAAA'' True (hostRoom (Some 2) (Some 3)))])
   \<and> map_of [(''AAAA'', hostRoom (Some 2) (Some 3))] ''AAAA'' = Some (hostRoom (Some 2) (Some 3))
   \<and> status (hostRoom (Some 2) (Some 3)) = waiting
   \<and> maxPlayers (hostRoom (Some 2) (Some 3)) = Some (int (length (players (hostRoom (Some 2) (Some 3)))) + 1)
   \<and> (\<exists>room'. map_of (fst (joinRoom keepOrder 1000 ''s2'' ''Bob'' ''AAAA'' [(''AAAA'', hostRoom (Some 2) (Some 3))]))
                  ''AAAA'' = Some room'
         \<and> length (players room') = 2
         \<and> status room' = playing
         \<and> maze room' = Some (generateMaze keepOrder 21 21)
         \<and> startTime room' = Some 1000
         \<and> list_all (\<lambda>p. posX p = Some 1 \<and> posY p = Some 1) (players room'))"
proof -
  have h: "map_of [(''AAAA'', hostRoom (Some 2) (Some 3))] ''AAAA'' = Some (hostRoom (Some 2) (Some 3))"
    "status (hostRoom (Some 2) (Some 3)) = waiting"
    "maxPlayers (hostRoom (Some 2) (Some 3)) = Some (int (length (players (hostRoom (Some 2) (Some 3)))) + 1)"
    by (simp_all add: hostRoom_def)
  have l: "length (players (hostRoom (Some 2) (Some 3))) = 1" by (simp add: hostRoom_def)
  from joinRoom_autostart[OF h, of keepOrder 1000 "''s2''" "''Bob''"] l
  have "\<exists>room'. map_of (fst (joinRoom keepOrder 1000 ''s2'' ''Bob'' ''AAAA'' [(''AAAA'', hostRoom (Some 2) (Some 3))]))
                  ''AAAA'' = Some room'
         \<and> length (players room') = 2
         \<and> status room' = playing
         \<and> maze room' = Some (generateMaze keepOrder 21 21)
         \<and> startTime room' = Some 1000
         \<and> list_all (\<lambda>p. posX p = Some 1 \<and> posY p = Some 1) (players room')"
    by (auto simp: list_all_iff)
  with h createRoom_host[of "Some 2" "Some 3"] show ?thesis by simp
qed

text \<open>
  A room created with \<open>maxPlayers\<close> 0 holds its host: one player, above its limit.
\<close>

theorem createRoom_exceeds_counterexample:
  "run [CreateRoom zeroRandom ''s1'' ''Ann'' (Some 0) (Some 3)] [] = Some [(''AAAA'', hostRoom (Some 0) (Some 3))]
   \<and> map_of [(''AAAA'', hostRoom (Some 0) (Some 3))] ''AAAA'' = Some (hostRoom (Some 0) (Some 3))
   \<and> maxPlayers (hostRoom (Some 0) (Some 3)) = Some 0
   \<and> length (players (hostRoom (Some 0) (Some 3))) = 1
   \<and> \<not> int (length (players (hostRoom (Some 0) (Some 3)))) \<le> 0"
  by (simp add: createRoom_host) (simp add: hostRoom_def)

text \<open>
  The room for two, once filled, holds two players.
\<close>

theorem players_within_maxPlayers_witness:
  "run [CreateRoom zeroRandom ''s1'' ''Ann'' (Some 2) (Some 3),
        JoinRoom keepOrder 1000 ''s2'' ''Bob'' ''AAAA''] [] = Some [(''AAAA'', playingRoom)]
   \<and> map_of [(''AAAA'', playingRoom)] ''AAAA'' = Some playingRoom
   \<and> maxPlayers playingRoom = Some 2
   \<and> (1::int) \<le> 2
   \<and> int (length (players playingRoom)) \<le> 2"
proof -
  have m: "map_of [(''AAAA'', playingRoom)] ''AAAA'' = Some playingRoom" by simp
  have c: "maxPlayers playingRoom = Some 2" by (simp add: playingRoom_def)
  have o: "(1::int) \<le> 2" by simp
  from players_within_maxPlayers[OF run_playing m c o] m c show ?thesis
    unfolding run_playing by simp
qed

text \<open>
  C8. A room that two players have created and filled is \<open>playing\<close>; a play-again
  request at that moment puts it back to \<open>waiting\<close>, without passing through
  \<open>round_over\<close> or \<open>game_over\<close>: \<open>requestPlayAgain\<close> does not look at the status.
\<close>

theorem requestPlayAgain_from_playing:
  "run [CreateRoom zeroRandom ''s1'' ''Ann'' (Some 2) (Some 3),
        JoinRoom keepOrder 1000 ''s2'' ''Bob'' ''AAAA''] [] = Some [(''AAAA'', playingRoom)]
   \<and> status playingRoom = playing
   \<and> run [CreateRoom zeroRandom ''s1'' ''Ann'' (Some 2) (Some 3),
          JoinRoom keepOrder 1000 ''s2'' ''Bob'' ''AAAA'',
          RequestPlayAgain ''AAAA''] []
       = Some [(''AAAA'', playingRoom\<lparr>status := waiting\<rparr>)]"
  by (simp add: createRoom_host joinRoom_second)
     (simp add: requestPlayAgain_def playingRoom_def racer_def Let_def)

text \<open>
  A new round for the room of three keeps the score of P2 and the time of the last finish.
\<close>

theorem startRound_frame_witness:
  "map_of [(''RACE'', raceRoom)] ''RACE'' = Some raceRoom
   \<and> (\<exists>room'. map_of (fst (startRound keepOrder 9000 ''RACE'' [(''RACE'', raceRoom)])) ''RACE'' = Some room'
         \<and> length (players room') = 3
         \<and> score (players room' ! 1) = 2
         \<and> lastFinishTime (players room' ! 1) = Some (16 / 5)
         \<and> currentRound room' = 4 \<and> totalRounds room' = Some 5)"
proof -
  from startRound_frame[OF race_hyps(1), of keepOrder 9000]
  obtain room' where a: "map_of (fst (startRound keepOrder 9000 ''RACE'' [(''RACE'', raceRoom)])) ''RACE'' = Some room'"
    and b: "room'\<lparr>status := status raceRoom, maze := maze raceRoom, startTime := startTime raceRoom,
                players := players raceRoom\<rparr> = raceRoom"
    and c: "length (players room') = length (players raceRoom)"
    and d: "\<forall>i < length (players raceRoom).
            score (players room' ! i) = score (players raceRoom ! i)
            \<and> lastFinishTime (players room' ! i) = lastFinishTime (players raceRoom ! i)"
    by blast
  from b have "currentRound room' = currentRound raceRoom" "totalRounds room' = totalRounds raceRoom"
    by (metis room.select_convs room.surjective room.update_convs)+
  with a c d[rule_format, of 1] race_hyps show ?thesis by (simp del: One_nat_def)
qed

end
